theory Spec2Isabelle
  imports Complex_Main "HOL-Library.AList"
begin

section \<open>Data model\<close>

text \<open>
  Values are the entries of the numpy matrix: a number, not-a-number, or an infinity.
  Arithmetic is exact on the numbers (rounding and overflow are outside this
  development) and follows the machine format on not-a-number and the infinities. There
  is one zero, the positive one: the only divisors in what follows are counts.
\<close>

datatype fval = Fin real | NaN | PInf | NInf

text \<open>Python's \<open>v == v\<close> on a float: false exactly for not-a-number.\<close>

definition py_eq :: "fval \<Rightarrow> fval \<Rightarrow> bool" where
  "py_eq a b = (a \<noteq> NaN \<and> b \<noteq> NaN \<and> a = b)"

fun fneg :: "fval \<Rightarrow> fval" where
  "fneg (Fin a) = Fin (- a)"
| "fneg NaN = NaN"
| "fneg PInf = NInf"
| "fneg NInf = PInf"

fun fadd :: "fval \<Rightarrow> fval \<Rightarrow> fval" where
  "fadd (Fin a) (Fin b) = Fin (a + b)"
| "fadd NaN _ = NaN"
| "fadd _ NaN = NaN"
| "fadd PInf NInf = NaN"
| "fadd NInf PInf = NaN"
| "fadd PInf _ = PInf"
| "fadd _ PInf = PInf"
| "fadd NInf _ = NInf"
| "fadd _ NInf = NInf"

definition fsub :: "fval \<Rightarrow> fval \<Rightarrow> fval" where
  "fsub a b = fadd a (fneg b)"

fun fmul :: "fval \<Rightarrow> fval \<Rightarrow> fval" where
  "fmul (Fin a) (Fin b) = Fin (a * b)"
| "fmul NaN _ = NaN"
| "fmul _ NaN = NaN"
| "fmul (Fin a) PInf = (if a = 0 then NaN else if 0 < a then PInf else NInf)"
| "fmul (Fin a) NInf = (if a = 0 then NaN else if 0 < a then NInf else PInf)"
| "fmul PInf (Fin b) = (if b = 0 then NaN else if 0 < b then PInf else NInf)"
| "fmul NInf (Fin b) = (if b = 0 then NaN else if 0 < b then NInf else PInf)"
| "fmul PInf PInf = PInf"
| "fmul NInf NInf = PInf"
| "fmul PInf NInf = NInf"
| "fmul NInf PInf = NInf"

text \<open>
  Division: a nonzero number over zero is an infinity of the dividend's sign, zero over
  zero is not-a-number, a number over an infinity is zero, an infinity over an infinity
  is not-a-number.
\<close>

fun fdiv :: "fval \<Rightarrow> fval \<Rightarrow> fval" where
  "fdiv (Fin a) (Fin b) =
     (if b = 0 then (if a = 0 then NaN else if 0 < a then PInf else NInf) else Fin (a / b))"
| "fdiv NaN _ = NaN"
| "fdiv _ NaN = NaN"
| "fdiv (Fin a) _ = Fin 0"
| "fdiv PInf (Fin b) = (if 0 \<le> b then PInf else NInf)"
| "fdiv NInf (Fin b) = (if 0 \<le> b then NInf else PInf)"
| "fdiv _ _ = NaN"

text \<open>
  The exceptions the modelled code raises: the package's own (the classes of its
  exception module \<open>dynts.exc\<close>, which is not among the sources) and Python's and
  numpy's.
\<close>

datatype error =
    DyntsOutOfBound | DyntsException | NotAvailable | NotImplementedError
  | NameError | UnboundLocalError | ValueError | IndexError | TypeError | AttributeError

text \<open>
  The names bound at module level in \<open>backends/np.py\<close> and in \<open>api/timeseries.py\<close>:
  what their import statements, assignments and definitions bind. Evaluating a name that
  is neither a local, nor bound in its module, nor a builtin raises NameError.
\<close>

definition np_module :: "string list" where
  "np_module =
     [''np'', ''TimeSeries'', ''is_timeseries'', ''Skiplist'', ''asarray'', ''arraytype'',
      ''nan'', ''_functions'', ''days'', ''Numpy'']"

definition timeseries_module :: "string list" where
  "timeseries_module =
     [''np'', ''laggeddates'', ''ashash'', ''asbtree'', ''asarray'', ''Data'', ''operators'',
      ''DyntsException'', ''NotAvailable'', ''nan'', ''ops'', ''ts_bin_op'', ''object_type'',
      ''is_timeseries'', ''BACKENDS'', ''TSmeta'', ''TimeSeries'']"

definition global_name :: "string list \<Rightarrow> string \<Rightarrow> error + unit" where
  "global_name names n = (if n \<in> set names then Inr () else Inl NameError)"

text \<open>
  The numpy backend's state: \<open>_date\<close> (the key array, or None), \<open>_data\<close> (the 2-D value
  array, or None) and \<open>_skl\<close> (the ordered key index). A 2-D array is the list of its rows.
  \<open>date_owned\<close> and \<open>data_owned\<close> say of each array whether it owns its data and no
  other object refers to it: numpy resizes an array in place only then.
  Names and namespaces of the columns play no part in what follows and are left out.
\<close>

record 'k store =
  date :: "'k list option"
  data :: "fval list list option"
  skl :: "'k list"
  date_owned :: bool
  data_owned :: bool

definition ncols :: "'a list list \<Rightarrow> nat" where
  "ncols rows = (case rows of [] \<Rightarrow> 0 | r # _ \<Rightarrow> length r)"

text \<open>\<open>Numpy.shape\<close>: the array's shape, or \<open>(0, 0)\<close> when there is no array.\<close>

definition shape :: "'k store \<Rightarrow> nat \<times> nat" where
  "shape s = (case data s of None \<Rightarrow> (0, 0) | Some rows \<Rightarrow> (length rows, ncols rows))"

text \<open>\<open>TimeSeries.__len__\<close> and \<open>TimeSeries.count\<close>.\<close>

definition len :: "'k store \<Rightarrow> nat" where
  "len s = fst (shape s)"

definition count :: "'k store \<Rightarrow> nat" where
  "count s = snd (shape s)"

text \<open>\<open>Numpy.dates\<close> and \<open>Numpy.values\<close>, in ascending order (\<open>desc\<close> not given).\<close>

definition dates :: "'k store \<Rightarrow> 'k list" where
  "dates s = (case date s of None \<Rightarrow> [] | Some ds \<Rightarrow> ds)"

definition values_ts :: "'k store \<Rightarrow> fval list list" where
  "values_ts s = (case data s of None \<Rightarrow> [] | Some rows \<Rightarrow> rows)"

subsection \<open>The ordered key index\<close>

text \<open>
  Modelled from the spec: the class \<open>Skiplist\<close> of \<open>dynts.lib\<close> is not among the sources.
  The spec describes it as a sorted key set; \<open>insert(key)\<close> inserts the key maintaining
  sort order, and \<open>rank(key)\<close> returns the zero-based index of a present key and, for an
  absent one, the negative value \<open>-(insertion_index) - 1\<close>.
\<close>

definition skl_insert :: "'k::linorder \<Rightarrow> 'k list \<Rightarrow> 'k list" where
  "skl_insert k xs = (if k \<in> set xs then xs else insort k xs)"

definition Skiplist :: "'k::linorder list \<Rightarrow> 'k list" where
  "Skiplist ds = foldr skl_insert ds []"

definition rank :: "'k::linorder list \<Rightarrow> 'k \<Rightarrow> int" where
  "rank xs k =
     (let i = int (length (filter (\<lambda>x. x < k) xs))
      in if k \<in> set xs then i else - i - 1)"

subsection \<open>Construction\<close>

text \<open>
  The arguments of \<open>make\<close>. The dates are a sequence, or an array another object
  keeps. The data are a 2-D sequence of rows (or a 2-D array handed over, that no one
  else keeps), a 2-D array another object keeps, or 1-D data.
\<close>

datatype 'a date_arg = Seq "'a list" | Arr "'a list"

datatype data_arg = Rows "fval list list" | Shared "fval list list" | Column "fval list"

fun date_elems :: "'a date_arg \<Rightarrow> 'a list" where
  "date_elems (Seq xs) = xs"
| "date_elems (Arr xs) = xs"

text \<open>
  \<open>Numpy.make\<close> with the identity date conversion. Unless \<open>raw\<close>, the dates go
  through a generator, and \<open>asarray\<close> builds a new array from it; an array given raw is
  stored as it is. \<open>asarray\<close> builds a new array from a sequence of data and returns an
  array as it is; 1-D data are stored as \<open>data.reshape(len(data), 1)\<close>, a view that
  does not own its data. No dates, or an empty sequence of them, give the empty store.
\<close>

definition Numpy_make :: "'k::linorder date_arg option \<Rightarrow> data_arg \<Rightarrow> bool \<Rightarrow> 'k store" where
  "Numpy_make dte dat raw =
     (let ds = (case dte of None \<Rightarrow> [] | Some d \<Rightarrow> date_elems d);
          fresh = (case dte of Some (Arr _) \<Rightarrow> \<not> raw | _ \<Rightarrow> True)
      in if length ds = 0 then
           \<lparr>date = None, data = None, skl = Skiplist ds, date_owned = True, data_owned = True\<rparr>
         else
           (case dat of
              Rows rows \<Rightarrow>
                \<lparr>date = Some ds, data = Some rows, skl = Skiplist ds,
                 date_owned = fresh, data_owned = True\<rparr>
            | Shared rows \<Rightarrow>
                \<lparr>date = Some ds, data = Some rows, skl = Skiplist ds,
                 date_owned = fresh, data_owned = False\<rparr>
            | Column xs \<Rightarrow>
                \<lparr>date = Some ds, data = Some (map (\<lambda>x. [x]) xs), skl = Skiplist ds,
                 date_owned = fresh, data_owned = False\<rparr>))"

text \<open>
  \<open>TimeSeries.clone\<close>: without data the store's own array is passed on, without dates
  the store's own key array, raw.
\<close>

definition clone :: "'k::linorder store \<Rightarrow> 'k list option \<Rightarrow> data_arg option \<Rightarrow> 'k store" where
  "clone s dte dat =
     (let dat' = (case dat of None \<Rightarrow> Shared (values_ts s) | Some d \<Rightarrow> d)
      in case dte of
           None \<Rightarrow> Numpy_make (Some (Arr (dates s))) dat' True
         | Some ds \<Rightarrow> Numpy_make (Some (Seq ds)) dat' False)"

text \<open>
  The store invariant of the data model: no arrays at all, or as many keys as rows, at
  least one row, strictly increasing keys, rows of one width, and an index holding
  exactly the keys.
\<close>

definition wf_store :: "'k::linorder store \<Rightarrow> bool" where
  "wf_store s =
     (case (date s, data s) of
        (None, None) \<Rightarrow> skl s = []
      | (Some ds, Some rows) \<Rightarrow>
          ds \<noteq> [] \<and> length ds = length rows \<and> sorted ds \<and> distinct ds \<and>
          list_all (\<lambda>r. length r = ncols rows) rows \<and> skl s = ds
      | _ \<Rightarrow> False)"

text \<open>
  The part of the invariant that concerns the arrays alone: as many keys as rows, and
  rows of one width (an array's rows always are).
\<close>

definition shaped :: "'k store \<Rightarrow> bool" where
  "shaped s =
     (case (date s, data s) of
        (None, None) \<Rightarrow> True
      | (Some ds, Some rows) \<Rightarrow>
          length ds = length rows \<and> list_all (\<lambda>r. length r = ncols rows) rows
      | _ \<Rightarrow> False)"

section \<open>Insertion\<close>

text \<open>
  numpy's in-place \<open>resize\<close> (new cells are zero; ValueError on an array that does not
  own its data or that another object refers to), the slice assignment
  \<open>a[i+1:] = a[i:-1]\<close>, and item assignment, which raises IndexError out of range and,
  for a row, broadcasts a single value and raises ValueError on any other width.
\<close>

definition np_resize :: "bool \<Rightarrow> nat \<Rightarrow> 'a \<Rightarrow> 'a list \<Rightarrow> error + 'a list" where
  "np_resize owned n z xs =
     (if owned then Inr (take n xs @ replicate (n - length xs) z) else Inl ValueError)"

definition shift_up :: "nat \<Rightarrow> 'a list \<Rightarrow> 'a list" where
  "shift_up i xs = take (Suc i) xs @ drop i (butlast xs)"

definition np_setitem :: "'a list \<Rightarrow> nat \<Rightarrow> 'a \<Rightarrow> error + 'a list" where
  "np_setitem xs i v = (if i < length xs then Inr (xs[i := v]) else Inl IndexError)"

definition np_setrow :: "'a list list \<Rightarrow> nat \<Rightarrow> 'a list \<Rightarrow> error + 'a list list" where
  "np_setrow rows i vals =
     (if \<not> i < length rows then Inl IndexError
      else let c = length (rows ! i)
           in if length vals = c then Inr (rows[i := vals])
              else if length vals = 1 then Inr (rows[i := replicate c (hd vals)])
              else Inl ValueError)"

text \<open>
  The two assignments \<open>self._date[index] = dte\<close> and \<open>self._data[index] = values\<close>,
  and the update of the index.
\<close>

definition write_row ::
  "'k::linorder store \<Rightarrow> 'k \<Rightarrow> fval list \<Rightarrow> nat \<Rightarrow> 'k list \<Rightarrow> fval list list \<Rightarrow>
   error + 'k store" where
  "write_row s dte vals i ds rows =
     (case np_setitem ds i dte of
        Inl e \<Rightarrow> Inl e
      | Inr ds2 \<Rightarrow>
          (case np_setrow rows i vals of
             Inl e \<Rightarrow> Inl e
           | Inr rows2 \<Rightarrow>
               Inr (s\<lparr>date := Some ds2, data := Some rows2, skl := skl_insert dte (skl s)\<rparr>)))"

text \<open>
  \<open>Numpy.insert\<close>, with the identity date conversion. A store is false (\<open>not self\<close>)
  when its length is 0; the arrays \<open>np.array([dte])\<close> and \<open>np.array([values])\<close> of the
  first row are new ones. The key array is resized before the value array.
\<close>

definition Numpy_insert :: "'k::{linorder,zero} store \<Rightarrow> 'k \<Rightarrow> fval list \<Rightarrow> error + 'k store" where
  "Numpy_insert s dte vals =
     (if length vals = 0 then Inr s
      else if len s = 0 then
        Inr (s\<lparr>date := Some [dte], data := Some [vals], skl := skl_insert dte (skl s),
                date_owned := True, data_owned := True\<rparr>)
      else
        let index = rank (skl s) dte;
            rows = values_ts s;
            N = length rows
        in case date s of
             None \<Rightarrow> Inl (if index < 0 then AttributeError else TypeError)
           | Some ds \<Rightarrow>
               if index < 0 then
                 let i = nat (- 1 - index)
                 in case np_resize (date_owned s) (N + 1) 0 ds of
                      Inl e \<Rightarrow> Inl e
                    | Inr ds1 \<Rightarrow>
                        (case np_resize (data_owned s) (N + 1)
                                (replicate (count s) (Fin 0)) rows of
                           Inl e \<Rightarrow> Inl e
                         | Inr rows1 \<Rightarrow>
                             if i < N then
                               write_row s dte vals i (shift_up i ds1) (shift_up i rows1)
                             else write_row s dte vals i ds1 rows1)
               else write_row s dte vals (nat index) ds rows)"

text \<open>A sequence of insert calls; the first exception ends it.\<close>

fun insert_all :: "'k::{linorder,zero} store \<Rightarrow> ('k \<times> fval list) list \<Rightarrow> error + 'k store" where
  "insert_all s [] = Inr s"
| "insert_all s ((k, v) # kvs) =
     (case Numpy_insert s k v of Inl e \<Rightarrow> Inl e | Inr s' \<Rightarrow> insert_all s' kvs)"

section \<open>Rolling application and reduction\<close>

text \<open>\<open>TimeSeries.precondition\<close>: raises the given error class, or DyntsException.\<close>

definition precondition :: "bool \<Rightarrow> error option \<Rightarrow> error + unit" where
  "precondition precond errorclass =
     (if \<not> precond then Inl (case errorclass of None \<Rightarrow> DyntsException | Some e \<Rightarrow> e)
      else Inr ())"

definition default_align :: string where
  "default_align = ''right''"

text \<open>
  The body of \<open>TimeSeries.apply\<close>, in a module that binds the names \<open>names\<close>. The
  backend's \<open>_rollapply\<close> is a parameter. \<open>window or N\<close> takes \<open>N\<close> for a window that
  is None or zero, \<open>align or self.default_align\<close> the default for an alignment that is
  None or the empty string.
\<close>

definition apply_in ::
  "string list \<Rightarrow> ('k store \<Rightarrow> string \<Rightarrow> int \<Rightarrow> string \<Rightarrow> bool \<Rightarrow> error + 'r) \<Rightarrow>
   'k store \<Rightarrow> string \<Rightarrow> int option \<Rightarrow> bool \<Rightarrow> string option \<Rightarrow> error + 'r" where
  "apply_in names rollapply s func window bycolumn align =
     (let N = int (len s);
          w = (case window of None \<Rightarrow> N | Some x \<Rightarrow> if x = 0 then N else x)
      in case global_name names ''DyntsOutOfBound'' of
           Inl e \<Rightarrow> Inl e
         | Inr _ \<Rightarrow>
             (case precondition (w \<le> N \<and> w > 0) (Some DyntsOutOfBound) of
                Inl e \<Rightarrow> Inl e
              | Inr _ \<Rightarrow>
                  rollapply s func w
                    (case align of None \<Rightarrow> default_align
                     | Some a \<Rightarrow> if a = [] then default_align else a)
                    bycolumn))"

text \<open>
  The method as it stands in \<open>api/timeseries.py\<close>: the arguments of the call of
  \<open>precondition\<close> are evaluated before the call, the second one being the global name
  \<open>DyntsOutOfBound\<close>.
\<close>

definition TimeSeries_apply ::
  "('k store \<Rightarrow> string \<Rightarrow> int \<Rightarrow> string \<Rightarrow> bool \<Rightarrow> error + 'r) \<Rightarrow>
   'k store \<Rightarrow> string \<Rightarrow> int option \<Rightarrow> bool \<Rightarrow> string option \<Rightarrow> error + 'r" where
  "TimeSeries_apply = apply_in timeseries_module"

text \<open>
  The algorithm registry: operation name to algorithm name to callable.
  \<open>TimeSeries.getalgo\<close> and \<open>TimeSeries.reduce\<close>.
\<close>

type_synonym 'a registry = "string \<rightharpoonup> (string \<rightharpoonup> 'a)"

definition getalgo :: "'a registry \<Rightarrow> string \<Rightarrow> string \<Rightarrow> error + 'a" where
  "getalgo algorithms operation name =
     (case algorithms operation of
        None \<Rightarrow> Inl NotAvailable
      | Some oper \<Rightarrow> (case oper name of None \<Rightarrow> Inl NotAvailable | Some f \<Rightarrow> Inr f))"

definition TimeSeries_reduce ::
  "('k store \<Rightarrow> int \<Rightarrow> error + 'k store) registry \<Rightarrow> 'k store \<Rightarrow> int \<Rightarrow> string \<Rightarrow>
   error + 'k store" where
  "TimeSeries_reduce algorithms s sz method =
     (if sz \<ge> int (len s) then Inr s
      else case getalgo algorithms ''reduce'' method of
             Inl e \<Rightarrow> Inl e
           | Inr f \<Rightarrow> f s sz)"

section \<open>Derivatives\<close>

text \<open>
  The body of \<open>Numpy.delta\<close>, in a module that binds the names \<open>names\<close>: the
  arguments of the call of \<open>precondition\<close> are evaluated before the call, the second
  one being the attribute \<open>DyntsOutOfBound\<close> of the global name \<open>dynts\<close>. Then
  \<open>self._data[lag:] - self._data[:-lag]\<close>, row by row and cell by cell, a new array,
  on the keys \<open>self._date[lag:]\<close>.
\<close>

definition delta_in :: "string list \<Rightarrow> 'k::linorder store \<Rightarrow> int \<Rightarrow> error + 'k store" where
  "delta_in names s lag =
     (case global_name names ''dynts'' of
        Inl e \<Rightarrow> Inl e
      | Inr _ \<Rightarrow>
          (case precondition (lag < int (len s) \<and> lag > 0) (Some DyntsOutOfBound) of
             Inl e \<Rightarrow> Inl e
           | Inr _ \<Rightarrow>
               let l = nat lag;
                   rows = values_ts s;
                   v = map2 (map2 fsub) (drop l rows) (take (length rows - l) rows)
               in case date s of
                    None \<Rightarrow> Inl TypeError
                  | Some ds \<Rightarrow> Inr (clone s (Some (drop l ds)) (Some (Rows v)))))"

text \<open>The method as it stands in \<open>backends/np.py\<close>.\<close>

definition Numpy_delta :: "'k::linorder store \<Rightarrow> int \<Rightarrow> error + 'k store" where
  "Numpy_delta = delta_in np_module"

section \<open>Cleaning\<close>

text \<open>
  The interpolation algorithm gets the key and value before the run, the key and value
  after it (None at the end of the column) and the run, and yields key-value pairs.
  The argument of clean is such a callable, or None.
\<close>

type_synonym 'k algorithm =
  "'k option \<Rightarrow> fval option \<Rightarrow> 'k option \<Rightarrow> fval option \<Rightarrow> ('k \<times> fval) list \<Rightarrow> ('k \<times> fval) list"

text \<open>The local variables of the loop over one column; \<open>vals\<close> is the dict \<open>values\<close>.\<close>

record 'k colstate =
  dstart :: "'k option"
  dend :: "'k option"
  vend :: "fval option"
  new_dates :: "'k list"
  new_values :: "fval list"
  missings :: "('k \<times> fval) list"
  vals :: "('k \<times> fval) list"

definition col_init :: "'k colstate" where
  "col_init = \<lparr>dstart = None, dend = None, vend = None, new_dates = [], new_values = [],
               missings = [], vals = []\<rparr>"

text \<open>
  One iteration of \<open>for d, v in zip(original_dates, serie)\<close>. The missing observation
  is appended with the local variable \<open>dt\<close>, not with \<open>d\<close>; \<open>dt\<close> is the binding of
  that variable at this point, None when it is unbound, and reading an unbound local
  raises UnboundLocalError.
\<close>

definition clean_step ::
  "'k algorithm option \<Rightarrow> 'k option \<Rightarrow> 'k colstate \<Rightarrow> 'k \<times> fval \<Rightarrow> error + 'k colstate" where
  "clean_step algorithm dt st dv =
     (case dv of (d, v) \<Rightarrow>
        if py_eq v v then
          let st1 = (if dstart st = None then st\<lparr>dstart := Some d\<rparr> else st)
          in case (if missings st1 \<noteq> [] then
                     (case algorithm of
                        None \<Rightarrow> Inl TypeError
                      | Some alg \<Rightarrow>
                          let out = alg (dend st1) (vend st1) (Some d) (Some v) (missings st1)
                          in Inr (st1\<lparr>new_dates := new_dates st1 @ map fst out,
                                      new_values := new_values st1 @ map snd out,
                                      missings := []\<rparr>))
                   else Inr st1) of
               Inl e \<Rightarrow> Inl e
             | Inr st2 \<Rightarrow>
                 Inr (st2\<lparr>dend := Some d, vend := Some v, vals := AList.update d v (vals st2)\<rparr>)
        else if dstart st \<noteq> None \<and> algorithm \<noteq> None then
          (case dt of
             None \<Rightarrow> Inl UnboundLocalError
           | Some k \<Rightarrow> Inr (st\<lparr>missings := missings st @ [(k, v)]\<rparr>))
        else Inr st)"

fun clean_loop ::
  "'k algorithm option \<Rightarrow> 'k option \<Rightarrow> 'k colstate \<Rightarrow> ('k \<times> fval) list \<Rightarrow> error + 'k colstate" where
  "clean_loop algorithm dt st [] = Inr st"
| "clean_loop algorithm dt st (dv # rest) =
     (case clean_step algorithm dt st dv of
        Inl e \<Rightarrow> Inl e
      | Inr st' \<Rightarrow> clean_loop algorithm dt st' rest)"

text \<open>The run still pending when the column ends; the last key yielded becomes \<open>dend\<close>.\<close>

definition clean_tail :: "'k algorithm option \<Rightarrow> 'k colstate \<Rightarrow> error + 'k colstate" where
  "clean_tail algorithm st =
     (if missings st \<noteq> [] then
        (case algorithm of
           None \<Rightarrow> Inl TypeError
         | Some alg \<Rightarrow>
             let out = alg (dend st) (vend st) None None (missings st)
             in Inr (st\<lparr>new_dates := new_dates st @ map fst out,
                        new_values := new_values st @ map snd out,
                        dend := (if out = [] then dend st else Some (fst (last out)))\<rparr>))
      else Inr st)"

text \<open>A column's entry of \<open>series\<close>: \<open>(dstart, dend, values)\<close>.\<close>

type_synonym 'k centry = "'k option \<times> 'k option \<times> ('k \<times> fval) list"

definition clean_column ::
  "'k algorithm option \<Rightarrow> 'k option \<Rightarrow> 'k list \<Rightarrow> fval list \<Rightarrow> error + 'k centry" where
  "clean_column algorithm dt original_dates serie =
     (case clean_loop algorithm dt col_init (zip original_dates serie) of
        Inl e \<Rightarrow> Inl e
      | Inr st \<Rightarrow>
          (case clean_tail algorithm st of
             Inl e \<Rightarrow> Inl e
           | Inr st' \<Rightarrow> Inr (dstart st', dend st', vals st')))"

fun clean_series ::
  "'k algorithm option \<Rightarrow> 'k option \<Rightarrow> 'k list \<Rightarrow> fval list list \<Rightarrow> error + 'k centry list" where
  "clean_series algorithm dt original_dates [] = Inr []"
| "clean_series algorithm dt original_dates (serie # rest) =
     (case clean_column algorithm dt original_dates serie of
        Inl e \<Rightarrow> Inl e
      | Inr entry \<Rightarrow>
          (case clean_series algorithm dt original_dates rest of
             Inl e \<Rightarrow> Inl e
           | Inr entries \<Rightarrow> Inr (entry # entries)))"

text \<open>
  \<open>TimeSeries.series\<close>: the columns of the matrix, none for a store without rows (the
  generator's \<open>raise StopIteration\<close> is read as the end of the iteration, as it was
  when the code was written).
\<close>

definition series :: "'k store \<Rightarrow> fval list list" where
  "series s =
     (let d = values_ts s
      in if length d \<noteq> 0 then map (\<lambda>c. map (\<lambda>r. r ! c) d) [0..<count s] else [])"

text \<open>
  The test \<open>start is None or (dt >= start and dt <= end)\<close>; comparing with an end that
  is None is a TypeError.
\<close>

definition in_window :: "'k::linorder \<Rightarrow> 'k option \<Rightarrow> 'k option \<Rightarrow> error + bool" where
  "in_window dt start en =
     (case start of
        None \<Rightarrow> Inr True
      | Some a \<Rightarrow>
          if dt \<ge> a then (case en of None \<Rightarrow> Inl TypeError | Some b \<Rightarrow> Inr (dt \<le> b))
          else Inr False)"

text \<open>The cross-section at \<open>dt\<close>: the list \<open>cross\<close>, or None after the \<open>break\<close>.\<close>

fun cross_loop :: "'k::linorder \<Rightarrow> fval list \<Rightarrow> 'k centry list \<Rightarrow> error + fval list option" where
  "cross_loop dt cross [] = Inr (Some cross)"
| "cross_loop dt cross ((start, en, values) # rest) =
     (case in_window dt start en of
        Inl e \<Rightarrow> Inl e
      | Inr True \<Rightarrow>
          (case map_of values dt of
             None \<Rightarrow> Inr None
           | Some value \<Rightarrow> cross_loop dt (cross @ [value]) rest)
      | Inr False \<Rightarrow> cross_loop dt (cross @ [NaN]) rest)"

text \<open>The loop over \<open>sorted(all_dates)\<close>, giving \<open>cdate\<close> and \<open>cdata\<close>.\<close>

fun clean_rows :: "'k::linorder list \<Rightarrow> 'k centry list \<Rightarrow> error + 'k list \<times> fval list list" where
  "clean_rows [] entries = Inr ([], [])"
| "clean_rows (dt # dts) entries =
     (case cross_loop dt [] entries of
        Inl e \<Rightarrow> Inl e
      | Inr cross \<Rightarrow>
          (case clean_rows dts entries of
             Inl e \<Rightarrow> Inl e
           | Inr (cdate, cdata) \<Rightarrow>
               (case cross of
                  Some (c # cs) \<Rightarrow> Inr (dt # cdate, (c # cs) # cdata)
                | _ \<Rightarrow> Inr (cdate, cdata))))"

text \<open>
  \<open>TimeSeries.clean\<close>. The set \<open>all_dates\<close> is the list of the keys of all the dicts and
  is read only through \<open>sorted\<close>. In the loop over the columns the local \<open>dt\<close> is
  unbound: its only assignment is the later loop over \<open>sorted(all_dates)\<close>.
\<close>

definition TimeSeries_clean :: "'k::linorder store \<Rightarrow> 'k algorithm option \<Rightarrow> error + 'k store" where
  "TimeSeries_clean s algorithm =
     (let original_dates = dates s
      in case clean_series algorithm None original_dates (series s) of
           Inl e \<Rightarrow> Inl e
         | Inr entries \<Rightarrow>
             let all_dates = concat (map (\<lambda>(start, en, values). map fst values) entries)
             in case clean_rows (sort (remdups all_dates)) entries of
                  Inl e \<Rightarrow> Inl e
                | Inr (cdate, cdata) \<Rightarrow> Inr (clone s (Some cdate) (Some (Rows cdata))))"

section \<open>Merging\<close>

text \<open>
  Modelled from the spec: the wrapper \<open>ashash\<close> of \<open>dynts.utils\<close> is not among the
  sources. It exposes a store as a hash table from key to row (a store contributes its
  observed row at a key it has); \<open>getts\<close> gives back the store of the table's entries,
  keys in ascending order.
\<close>

definition ashash :: "'k store \<Rightarrow> ('k \<times> fval list) list" where
  "ashash s = zip (dates s) (values_ts s)"

definition getts :: "'k::linorder store \<Rightarrow> ('k \<times> fval list) list \<Rightarrow> 'k store" where
  "getts s h =
     (let srt = sort_key fst h in clone s (Some (map fst srt)) (Some (Rows (map snd srt))))"

text \<open>
  \<open>Numpy.merge\<close> with a sequence of stores. \<open>mdt\<close> stacks, for every table of
  \<open>thashes\<close>, the row at the key or the fill vector. The first table of \<open>thashes\<close> is
  \<open>hash\<close> itself, the table the loop writes to, so \<open>mdt\<close> reads the table as it
  stands. Python does not fix the order in which \<open>for dt in alldates\<close> visits the set:
  the order is the parameter \<open>visit\<close>, an arrangement of the keys of all the stores
  with every key once.
\<close>

definition mdt ::
  "(('k \<times> fval list) list \<times> fval list) list \<Rightarrow> 'k \<Rightarrow> fval list" where
  "mdt thashes dt =
     concat (map (\<lambda>(h, fl). case map_of h dt of None \<Rightarrow> fl | Some row \<Rightarrow> row) thashes)"

definition alldates :: "'k store \<Rightarrow> 'k store list \<Rightarrow> 'k set" where
  "alldates s tserie = set (dates s) \<union> set (concat (map dates tserie))"

definition visits :: "'k list \<Rightarrow> 'k set \<Rightarrow> bool" where
  "visits visit keys = (distinct visit \<and> set visit = keys)"

definition Numpy_merge ::
  "'k::linorder list \<Rightarrow> 'k store \<Rightarrow> 'k store list \<Rightarrow> fval \<Rightarrow> 'k store" where
  "Numpy_merge visit s tserie fill =
     (let hash = ashash s;
          others = map (\<lambda>ts. (ashash ts, replicate (count ts) fill)) tserie;
          hash' = foldl (\<lambda>h dt. AList.update dt
                                  (mdt ((h, replicate (count s) fill) # others) dt) h)
                        hash visit
      in getts s hash')"

text \<open>The row a store holds at a key.\<close>

definition row_at :: "'k store \<Rightarrow> 'k \<Rightarrow> fval list option" where
  "row_at s k = map_of (zip (dates s) (values_ts s)) k"

section \<open>Variance\<close>

text \<open>
  Python's \<open>sum\<close> over the rows of a 2-D array: \<open>0 + row\<close> adds the number to every
  cell, each further row is added cell by cell. (On no rows the sum is the number 0;
  var never sums an array without rows.)
\<close>

definition py_sum :: "fval list list \<Rightarrow> fval list" where
  "py_sum rows =
     (case rows of [] \<Rightarrow> [] | r # rs \<Rightarrow> foldl (map2 fadd) (map (fadd (Fin 0)) r) rs)"

text \<open>\<open>TimeSeries.var\<close>: \<open>(sum(v*v) - mu*mu/N)/(N-ddof)\<close> with \<open>mu = sum(v)\<close>.\<close>

definition TimeSeries_var :: "'k store \<Rightarrow> int \<Rightarrow> fval list option" where
  "TimeSeries_var s ddof =
     (let N = len s
      in if N \<noteq> 0 then
           let v = values_ts s;
               mu = py_sum v;
               sq = py_sum (map (map (\<lambda>x. fmul x x)) v);
               mm = map (\<lambda>m. fdiv (fmul m m) (Fin (real N))) mu
           in Some (map (\<lambda>x. fdiv x (Fin (real_of_int (int N - ddof)))) (map2 fsub sq mm))
         else None)"

text \<open>
  \<open>Numpy.var\<close> is numpy's \<open>var\<close> along axis 0: the sum of the squared deviations
  from the column's mean, divided by \<open>N - ddof\<close>, a divisor that numpy raises to 0
  when it is negative.
\<close>

definition fsum :: "fval list \<Rightarrow> fval" where
  "fsum xs = foldl fadd (Fin 0) xs"

definition np_var :: "fval list \<Rightarrow> int \<Rightarrow> fval" where
  "np_var x ddof =
     (let mean = fdiv (fsum x) (Fin (real (length x)));
          dev = map (\<lambda>v. fsub v mean) x
      in fdiv (fsum (map (\<lambda>d. fmul d d) dev))
              (Fin (real_of_int (max (int (length x) - ddof) 0))))"

definition Numpy_var :: "'k store \<Rightarrow> int \<Rightarrow> error + fval list" where
  "Numpy_var s ddof =
     (case data s of
        None \<Rightarrow> Inl AttributeError
      | Some rows \<Rightarrow> Inr (map (\<lambda>c. np_var (map (\<lambda>r. r ! c) rows) ddof) [0..<ncols rows]))"

text \<open>Whether a value is a number, used in the proofs only.\<close>

fun is_num :: "fval \<Rightarrow> bool" where
  "is_num (Fin r) = True"
| "is_num _ = False"

section \<open>Example stores\<close>

definition ex3 :: "int store" where
  "ex3 = \<lparr>date = Some [1, 2, 3], data = Some [[Fin 10], [Fin 12], [Fin 15]], skl = [1, 2, 3],
            date_owned = True, data_owned = True\<rparr>"

definition echo_window :: "int store \<Rightarrow> string \<Rightarrow> int \<Rightarrow> string \<Rightarrow> bool \<Rightarrow> error + int" where
  "echo_window s func w align bycolumn = Inr w"

definition fail_algo :: "int store \<Rightarrow> int \<Rightarrow> error + int store" where
  "fail_algo s sz = Inl NotImplementedError"

definition reg1 :: "(int store \<Rightarrow> int \<Rightarrow> error + int store) registry" where
  "reg1 = [''reduce'' \<mapsto> [''simple'' \<mapsto> fail_algo]]"

definition no_fill :: "int algorithm" where
  "no_fill d0 v0 d1 v1 run = []"

definition ex_gap :: "int store" where
  "ex_gap = \<lparr>date = Some [1, 2], data = Some [[Fin 1], [NaN]], skl = [1, 2],
            date_owned = True, data_owned = True\<rparr>"

definition ex_allnan :: "int store" where
  "ex_allnan = \<lparr>date = Some [1, 2], data = Some [[Fin 1, NaN], [NaN, NaN]], skl = [1, 2],
            date_owned = True, data_owned = True\<rparr>"

definition ex_nocols :: "int store" where
  "ex_nocols = \<lparr>date = Some [1, 2], data = Some [[], []], skl = [1, 2],
            date_owned = True, data_owned = True\<rparr>"

definition ex_view :: "int store" where
  "ex_view = Numpy_make (Some (Seq [1, 2, 3])) (Column [Fin 10, Fin 12, Fin 15]) False"

definition ex_empty :: "int store" where
  "ex_empty = \<lparr>date = None, data = None, skl = [],
            date_owned = True, data_owned = True\<rparr>"

definition ex_b :: "int store" where
  "ex_b = \<lparr>date = Some [0, 5], data = Some [[Fin 1, Fin 2], [Fin 3, Fin 4]], skl = [0, 5],
            date_owned = True, data_owned = True\<rparr>"

section \<open>Properties\<close>

lemma len_ex3: "len ex3 = 3"
  by (simp add: len_def shape_def ex3_def)

text \<open>
  C9. Inserting an empty row vector is a no-op: the store comes back as it was (keys,
  matrix, length and index), and no error is raised.
\<close>

theorem insert_empty_row_noop: "Numpy_insert s k [] = Inr s"
  by (simp add: Numpy_insert_def)

text \<open>
  C7. With \<open>size\<close> at least the store's length, reduce returns the store itself
  whatever the registry holds; only below the length is the registered reduce algorithm
  named \<open>method\<close> looked up and called.
\<close>

theorem reduce_identity:
  "(int (len s) \<le> sz \<longrightarrow> TimeSeries_reduce algorithms s sz method = Inr s) \<and>
   (sz < int (len s) \<longrightarrow>
      TimeSeries_reduce algorithms s sz method =
        (case getalgo algorithms ''reduce'' method of Inl e \<Rightarrow> Inl e | Inr f \<Rightarrow> f s sz))"
  by (simp add: TimeSeries_reduce_def)

theorem reduce_identity_witness:
  "TimeSeries_reduce Map.empty ex3 3 ''simple'' = Inr ex3 \<and>
   TimeSeries_reduce reg1 ex3 2 ''simple'' = Inl NotImplementedError \<and>
   TimeSeries_reduce Map.empty ex3 2 ''simple'' = Inl NotAvailable"
  using reduce_identity [of ex3 3 Map.empty "''simple''"]
        reduce_identity [of ex3 2 reg1 "''simple''"]
        reduce_identity [of ex3 2 Map.empty "''simple''"]
  by (simp add: len_ex3 getalgo_def reg1_def fail_algo_def)

text \<open>
  In a module that binds the name \<open>DyntsOutOfBound\<close>, the body raises the bounds
  error exactly when the window, \<open>N\<close> for one that is not supplied or is 0, is not in
  \<open>(0, N]\<close>; otherwise the call goes to the backend with that window.
\<close>

lemma apply_in_bounds:
  assumes "''DyntsOutOfBound'' \<in> set names"
  shows
  "(w \<noteq> 0 \<and> \<not> (0 < w \<and> w \<le> int (len s)) \<longrightarrow>
      apply_in names r s f (Some w) b a = Inl DyntsOutOfBound) \<and>
   (0 < w \<and> w \<le> int (len s) \<longrightarrow>
      (\<exists>al. apply_in names r s f (Some w) b a = r s f w al b)) \<and>
   (len s = 0 \<longrightarrow>
      apply_in names r s f None b a = Inl DyntsOutOfBound \<and>
      apply_in names r s f (Some 0) b a = Inl DyntsOutOfBound) \<and>
   (0 < len s \<longrightarrow>
      (\<exists>al. apply_in names r s f None b a = r s f (int (len s)) al b \<and>
            apply_in names r s f (Some 0) b a = r s f (int (len s)) al b))"
  using assms by (auto simp: apply_in_def global_name_def precondition_def Let_def)

text \<open>
  \<open>api/timeseries.py\<close> does not bind the name: every call of apply ends with
  NameError, whatever the window.
\<close>

lemma apply_name_error: "TimeSeries_apply r s f w b a = Inl NameError"
  by (simp add: TimeSeries_apply_def apply_in_def global_name_def timeseries_module_def Let_def)

text \<open>
  C3. The claim asks for the bounds error exactly when the window is not in \<open>(0, N]\<close>.
  On a store of three rows with window 4 the code raises no bounds error: the call ends
  with NameError.
\<close>

theorem apply_bounds_name_error:
  "TimeSeries_apply echo_window ex3 ''mean'' (Some 4) True None = Inl NameError"
  by (simp add: TimeSeries_apply_def apply_in_def global_name_def timeseries_module_def Let_def)

subsection \<open>Derivatives\<close>

lemma wf_nonempty:
  assumes "wf_store s" "0 < len s"
  obtains ds rows where "date s = Some ds" "data s = Some rows" "length ds = length rows"
    "rows \<noteq> []" "sorted ds" "distinct ds" "\<forall>r\<in>set rows. length r = ncols rows" "skl s = ds"
  using assms
  by (auto simp: wf_store_def len_def shape_def list_all_iff split: option.splits)

lemma wf_ex3: "wf_store ex3"
  by (simp add: wf_store_def ex3_def ncols_def)

lemma shaped_nonempty:
  assumes "shaped s" "0 < len s"
  obtains ds rows where "date s = Some ds" "data s = Some rows" "length ds = length rows"
    "rows \<noteq> []" "\<forall>r\<in>set rows. length r = ncols rows"
  using assms
  by (auto simp: shaped_def len_def shape_def list_all_iff split: option.splits)

lemma shaped_ex3: "shaped ex3"
  by (simp add: shaped_def ex3_def ncols_def)

lemma delta_out_of_bound:
  "''dynts'' \<in> set names \<Longrightarrow> lag \<le> 0 \<or> int (len s) \<le> lag \<Longrightarrow>
   delta_in names s lag = Inl DyntsOutOfBound"
  by (auto simp: delta_in_def global_name_def precondition_def)

text \<open>
  In a module that binds the name \<open>dynts\<close>, on a store of length \<open>N\<close> (as many
  keys as rows), a lag with \<open>0 < lag < N\<close> gives a new store on the keys
  \<open>keys[lag:]\<close> with \<open>N - lag\<close> rows, row \<open>i\<close> holding
  \<open>value[i+lag] - value[i]\<close> in every column; a lag with \<open>lag \<le> 0\<close> or
  \<open>lag \<ge> N\<close> fails with the bounds error.
\<close>

lemma delta_in_spec:
  assumes wf: "shaped s" and bound: "''dynts'' \<in> set names"
  shows "(0 < lag \<and> lag < int (len s) \<longrightarrow>
           (\<exists>r. delta_in names s lag = Inr r \<and>
                dates r = drop (nat lag) (dates s) \<and>
                len r = len s - nat lag \<and>
                (\<forall>i < len s - nat lag.
                   length (values_ts r ! i) = count s \<and>
                   (\<forall>j < count s.
                      values_ts r ! i ! j =
                        fsub (values_ts s ! (i + nat lag) ! j) (values_ts s ! i ! j))))) \<and>
         (lag \<le> 0 \<or> int (len s) \<le> lag \<longrightarrow> delta_in names s lag = Inl DyntsOutOfBound)"
proof (intro conjI impI)
  assume lag: "0 < lag \<and> lag < int (len s)"
  then have pos: "0 < len s" by simp
  from wf pos obtain ds rows where s: "date s = Some ds" "data s = Some rows"
    "length ds = length rows" "\<forall>r\<in>set rows. length r = ncols rows"
    by (rule shaped_nonempty)
  define l where "l = nat lag"
  have N: "len s = length rows" by (simp add: len_def shape_def s)
  have l: "0 < l" "l < length rows" using lag N unfolding l_def by linarith+
  define v where "v = map2 (map2 fsub) (drop l rows) (take (length rows - l) rows)"
  define r where "r = clone s (Some (drop l ds)) (Some (Rows v))"
  have run: "delta_in names s lag = Inr r"
    using lag
    by (simp add: delta_in_def global_name_def bound precondition_def s r_def v_def l_def
        values_ts_def N Let_def)
  have r: "date r = Some (drop l ds)" "data r = Some v"
    using l s(3) by (simp_all add: r_def clone_def Numpy_make_def Let_def)
  have lv: "length v = length rows - l" by (simp add: v_def)
  have c: "count s = ncols rows" by (simp add: count_def shape_def s)
  have row: "length (v ! i) = ncols rows \<and>
             (\<forall>j < ncols rows. v ! i ! j = fsub (rows ! (i + l) ! j) (rows ! i ! j))"
    if "i < length rows - l" for i
  proof -
    have "rows ! (i + l) \<in> set rows" "rows ! i \<in> set rows" using that by simp_all
    then have len2: "length (rows ! (i + l)) = ncols rows" "length (rows ! i) = ncols rows"
      using s(4) by blast+
    have vi: "v ! i = map2 fsub (rows ! (l + i)) (rows ! i)"
      using that by (simp add: v_def)
    show ?thesis using len2 by (simp add: vi add.commute)
  qed
  show "\<exists>r. delta_in names s lag = Inr r \<and>
                dates r = drop (nat lag) (dates s) \<and>
                len r = len s - nat lag \<and>
                (\<forall>i < len s - nat lag.
                   length (values_ts r ! i) = count s \<and>
                   (\<forall>j < count s.
                      values_ts r ! i ! j =
                        fsub (values_ts s ! (i + nat lag) ! j) (values_ts s ! i ! j)))"
    using run row
    by (intro exI[of _ r]) (simp add: dates_def r s len_def shape_def lv values_ts_def c l_def)
next
  assume "lag \<le> 0 \<or> int (len s) \<le> lag"
  then show "delta_in names s lag = Inl DyntsOutOfBound" by (rule delta_out_of_bound[OF bound])
qed

text \<open>
  \<open>backends/np.py\<close> does not bind the name \<open>dynts\<close>: every call of delta ends with
  NameError, whatever the lag.
\<close>

lemma delta_name_error: "Numpy_delta s lag = Inl NameError"
  by (simp add: Numpy_delta_def delta_in_def global_name_def np_module_def)

text \<open>
  C5. The claim asks, for \<open>0 < lag < N\<close>, for the store of the differences. On the
  keys 1, 2, 3 with the column 10, 12, 15 and lag 1 the code returns no store: the call
  ends with NameError.
\<close>

theorem delta_lag_name_error: "Numpy_delta ex3 1 = Inl NameError"
  by (simp add: Numpy_delta_def delta_in_def global_name_def np_module_def)

subsection \<open>Cleaning\<close>

lemmas clean_eval =
  TimeSeries_clean_def series_def values_ts_def count_def shape_def ncols_def dates_def
  clean_column_def col_init_def clean_step_def clean_tail_def py_eq_def in_window_def
  clone_def Numpy_make_def Let_def Skiplist_def

text \<open>
  While the columns are scanned the variable \<open>dt\<close> is unbound, so a missing value met
  after the column's first valid one, with an algorithm given, ends the call with
  UnboundLocalError: nothing is appended to the run.
\<close>

lemma clean_step_missing_unbound:
  "dstart st \<noteq> None \<Longrightarrow> clean_step (Some alg) None st (d, NaN) = Inl UnboundLocalError"
  by (simp add: clean_step_def py_eq_def)

text \<open>
  C2. The claim asks for the pair (current key, value) in the run buffer. On the keys
  1, 2 with the single column 1, not-a-number, and an algorithm given, the code appends
  no pair at key 2: the call raises UnboundLocalError.
\<close>

theorem clean_missing_run_key_unbound:
  "TimeSeries_clean ex_gap (Some no_fill) = Inl UnboundLocalError"
  by (simp add: clean_eval ex_gap_def)

lemma clean_step_no_algorithm:
  assumes "missings st = []" "dstart st \<noteq> None \<longrightarrow> dend st \<noteq> None"
  shows "\<exists>st'. clean_step None dt st (d, v) = Inr st' \<and> missings st' = [] \<and>
               (dstart st' \<noteq> None \<longrightarrow> dend st' \<noteq> None) \<and> (v = NaN \<longrightarrow> st' = st)"
  using assms by (cases v) (simp_all add: clean_step_def py_eq_def)

lemma clean_loop_no_algorithm:
  assumes "missings st = []" "dstart st \<noteq> None \<longrightarrow> dend st \<noteq> None"
  shows "\<exists>st'. clean_loop None dt st zs = Inr st' \<and> missings st' = [] \<and>
               (dstart st' \<noteq> None \<longrightarrow> dend st' \<noteq> None) \<and>
               ((\<forall>z\<in>set zs. snd z = NaN) \<longrightarrow> st' = st)"
  using assms
proof (induction zs arbitrary: st)
  case Nil
  then show ?case by simp
next
  case (Cons z zs)
  obtain d v where z: "z = (d, v)" by (cases z)
  from clean_step_no_algorithm[OF Cons.prems, of dt d v] obtain st1 where
    st1: "clean_step None dt st (d, v) = Inr st1" "missings st1 = []"
      "dstart st1 \<noteq> None \<longrightarrow> dend st1 \<noteq> None" "v = NaN \<longrightarrow> st1 = st" by blast
  from Cons.IH[OF st1(2,3)] obtain st' where
    st': "clean_loop None dt st1 zs = Inr st'" "missings st' = []"
      "dstart st' \<noteq> None \<longrightarrow> dend st' \<noteq> None" "(\<forall>z\<in>set zs. snd z = NaN) \<longrightarrow> st' = st1"
    by blast
  have "clean_loop None dt st (z # zs) = Inr st'" using st1(1) st'(1) by (simp add: z)
  moreover have "(\<forall>z\<in>set (z # zs). snd z = NaN) \<longrightarrow> st' = st"
    using st1(4) st'(4) by (simp add: z)
  ultimately show ?case using st'(2,3) by blast
qed

lemma clean_column_no_algorithm:
  "\<exists>a b vs. clean_column None dt ds col = Inr (a, b, vs) \<and> (a \<noteq> None \<longrightarrow> b \<noteq> None) \<and>
     ((\<forall>v\<in>set col. v = NaN) \<longrightarrow> a = None \<and> vs = [])"
proof -
  have i: "missings (col_init :: 'a colstate) = []"
    "dstart (col_init :: 'a colstate) \<noteq> None \<longrightarrow> dend (col_init :: 'a colstate) \<noteq> None"
    by (simp_all add: col_init_def)
  from clean_loop_no_algorithm[OF i, of dt "zip ds col"] obtain st' where
    st': "clean_loop None dt col_init (zip ds col) = Inr st'" "missings st' = []"
      "dstart st' \<noteq> None \<longrightarrow> dend st' \<noteq> None"
      "(\<forall>z\<in>set (zip ds col). snd z = NaN) \<longrightarrow> st' = col_init" by blast
  have "(\<forall>v\<in>set col. v = NaN) \<longrightarrow> (\<forall>z\<in>set (zip ds col). snd z = NaN)"
    by (auto dest: set_zip_rightD)
  then have "(\<forall>v\<in>set col. v = NaN) \<longrightarrow> dstart st' = None \<and> vals st' = []"
    using st'(4) by (auto simp: col_init_def)
  then show ?thesis using st'(1,2,3) by (simp add: clean_column_def clean_tail_def)
qed

lemma clean_series_no_algorithm:
  "\<exists>entries. clean_series None dt ds cols = Inr entries \<and> length entries = length cols \<and>
     (\<forall>e\<in>set entries. fst e \<noteq> None \<longrightarrow> fst (snd e) \<noteq> None) \<and>
     (\<forall>j < length cols. (\<forall>v\<in>set (cols ! j). v = NaN) \<longrightarrow>
         fst (entries ! j) = None \<and> snd (snd (entries ! j)) = [])"
proof (induction cols)
  case Nil
  then show ?case by simp
next
  case (Cons col cols)
  from clean_column_no_algorithm[of dt ds col] obtain a b vs where
    c: "clean_column None dt ds col = Inr (a, b, vs)" "a \<noteq> None \<longrightarrow> b \<noteq> None"
      "(\<forall>v\<in>set col. v = NaN) \<longrightarrow> a = None \<and> vs = []" by blast
  from Cons obtain entries where
    e: "clean_series None dt ds cols = Inr entries" "length entries = length cols"
      "\<forall>e\<in>set entries. fst e \<noteq> None \<longrightarrow> fst (snd e) \<noteq> None"
      "\<forall>j < length cols. (\<forall>v\<in>set (cols ! j). v = NaN) \<longrightarrow>
         fst (entries ! j) = None \<and> snd (snd (entries ! j)) = []" by blast
  have "clean_series None dt ds (col # cols) = Inr ((a, b, vs) # entries)"
    using c(1) e(1) by simp
  moreover have "\<forall>j < length (col # cols). (\<forall>v\<in>set ((col # cols) ! j). v = NaN) \<longrightarrow>
         fst (((a, b, vs) # entries) ! j) = None \<and> snd (snd (((a, b, vs) # entries) ! j)) = []"
    using c(3) e(4) by (auto simp: nth_Cons split: nat.splits)
  ultimately show ?case using c(2) e(2,3) by (intro exI[of _ "(a, b, vs) # entries"]) simp
qed

lemma cross_loop_dropped:
  assumes "\<forall>e\<in>set entries. fst e \<noteq> None \<longrightarrow> fst (snd e) \<noteq> None"
    "\<exists>e\<in>set entries. fst e = None \<and> snd (snd e) = []"
  shows "cross_loop dt acc entries = Inr None"
  using assms
proof (induction entries arbitrary: acc)
  case Nil
  then show ?case by simp
next
  case (Cons e entries)
  obtain a b vs where e: "e = (a, b, vs)" by (cases e)
  show ?case
  proof (cases "a = None \<and> vs = []")
    case True
    then show ?thesis by (simp add: e in_window_def)
  next
    case False
    then have ih: "cross_loop dt acc' entries = Inr None" for acc'
      using Cons by (auto simp: e)
    have "b \<noteq> None" if "a \<noteq> None" using Cons.prems(1) that by (simp add: e)
    then have "\<exists>w. in_window dt a b = Inr w"
      by (cases a; cases b) (auto simp: in_window_def)
    then obtain w where "in_window dt a b = Inr w" by blast
    then show ?thesis by (cases w) (simp_all add: e ih split: option.splits)
  qed
qed

lemma clean_rows_dropped:
  assumes "\<forall>e\<in>set entries. fst e \<noteq> None \<longrightarrow> fst (snd e) \<noteq> None"
    "\<exists>e\<in>set entries. fst e = None \<and> snd (snd e) = []"
  shows "clean_rows dts entries = Inr ([], [])"
  by (induction dts) (simp_all add: cross_loop_dropped[OF assms])

text \<open>
  Without an algorithm no run is ever buffered, and a column that is all missing has no
  valid start and no entry at any key, so every row is dropped: the result is the empty
  store.
\<close>

lemma clean_all_missing_no_algorithm:
  assumes sh: "shaped s" and pos: "0 < len s" and j: "j < count s"
    and nan: "\<forall>r\<in>set (values_ts s). r ! j = NaN"
  shows "TimeSeries_clean s None = Inr \<lparr>date = None, data = None, skl = [], date_owned = True,
       data_owned = True\<rparr>"
proof -
  from sh pos obtain ds rows where s: "data s = Some rows" "rows \<noteq> []"
    by (rule shaped_nonempty)
  define cols where "cols = series s"
  have cols: "cols = map (\<lambda>c. map (\<lambda>r. r ! c) rows) [0..<count s]"
    using s(2) by (simp add: cols_def series_def values_ts_def s)
  have jl: "j < length cols" using j by (simp add: cols)
  have cj: "\<forall>v\<in>set (cols ! j). v = NaN"
    using nan j by (simp add: cols values_ts_def s)
  from clean_series_no_algorithm[of None "dates s" cols] obtain entries where
    e: "clean_series None None (dates s) cols = Inr entries" "length entries = length cols"
      "\<forall>e\<in>set entries. fst e \<noteq> None \<longrightarrow> fst (snd e) \<noteq> None"
      "\<forall>j < length cols. (\<forall>v\<in>set (cols ! j). v = NaN) \<longrightarrow>
         fst (entries ! j) = None \<and> snd (snd (entries ! j)) = []" by blast
  have "entries ! j \<in> set entries" using jl e(2) by simp
  then have ex: "\<exists>e\<in>set entries. fst e = None \<and> snd (snd e) = []"
    using e(4) jl cj by blast
  show ?thesis
    using e(1)
    by (simp add: TimeSeries_clean_def cols_def[symmetric] clean_rows_dropped[OF e(3) ex]
        clone_def Numpy_make_def Let_def Skiplist_def del: sort_key_simps)
qed

text \<open>
  C8. The claim asks for an empty store whenever a column is all missing, whatever the
  algorithm. With an algorithm given and a second column that has a missing value after
  its first valid one, the code returns no store: the call raises UnboundLocalError.
\<close>

theorem clean_all_missing_column_raises:
  "TimeSeries_clean ex_allnan (Some no_fill) = Inl UnboundLocalError"
  by (simp add: clean_eval ex_allnan_def)

subsection \<open>Variance\<close>

lemma foldl_fadd_num: "foldl fadd (Fin a) (map Fin rs) = Fin (a + sum_list rs)"
  by (induction rs arbitrary: a) (simp_all add: add.assoc)

lemma fsum_fin: "fsum (map Fin rs) = Fin (sum_list rs)"
  by (simp add: fsum_def foldl_fadd_num)

lemma all_num_reals: "\<forall>x\<in>set xs. is_num x \<Longrightarrow> \<exists>rs. xs = map Fin rs"
proof (induction xs)
  case Nil
  then show ?case by simp
next
  case (Cons x xs)
  then obtain rs where "xs = map Fin rs" by auto
  moreover obtain r where "x = Fin r" using Cons.prems by (cases x) auto
  ultimately have "x # xs = map Fin (r # rs)" by simp
  then show ?case by (rule exI)
qed

lemma fadd_nan: "fadd NaN x = NaN" "fadd x NaN = NaN"
  by (cases x; simp)+

lemma foldl_fadd_nan: "a = NaN \<or> NaN \<in> set xs \<Longrightarrow> foldl fadd a xs = NaN"
proof (induction xs arbitrary: a)
  case Nil
  then show ?case by simp
next
  case (Cons x xs)
  have "fadd a x = NaN \<or> NaN \<in> set xs" using Cons.prems by (auto simp: fadd_nan)
  then show ?case using Cons.IH[of "fadd a x"] by simp
qed

lemma fsum_nan: "NaN \<in> set xs \<Longrightarrow> fsum xs = NaN"
  by (simp add: fsum_def foldl_fadd_nan)

lemma fadd_not_num: "\<not> is_num a \<or> \<not> is_num x \<Longrightarrow> \<not> is_num (fadd a x)"
  by (cases a; cases x) simp_all

lemma foldl_fadd_not_num:
  "\<not> is_num a \<or> (\<exists>x\<in>set xs. \<not> is_num x) \<Longrightarrow> \<not> is_num (foldl fadd a xs)"
proof (induction xs arbitrary: a)
  case Nil
  then show ?case by simp
next
  case (Cons x xs)
  have "\<not> is_num (fadd a x) \<or> (\<exists>x\<in>set xs. \<not> is_num x)"
    using Cons.prems fadd_not_num[of a x] by auto
  then show ?case using Cons.IH[of "fadd a x"] by simp
qed

lemma fadd_up:
  assumes "a \<noteq> NInf" "x \<noteq> NInf"
  shows "fadd a x \<noteq> NInf"
    and "a = PInf \<or> a = NaN \<or> x = PInf \<or> x = NaN \<Longrightarrow> fadd a x = PInf \<or> fadd a x = NaN"
  using assms by (cases a; cases x; simp)+

lemma foldl_fadd_up:
  "a \<noteq> NInf \<Longrightarrow> NInf \<notin> set xs \<Longrightarrow>
   a = PInf \<or> a = NaN \<or> (\<exists>x\<in>set xs. x = PInf \<or> x = NaN) \<Longrightarrow>
   foldl fadd a xs = PInf \<or> foldl fadd a xs = NaN"
proof (induction xs arbitrary: a)
  case Nil
  then show ?case by simp
next
  case (Cons x xs)
  have x: "x \<noteq> NInf" "NInf \<notin> set xs" using Cons.prems(2) by auto
  have 1: "fadd a x \<noteq> NInf" using Cons.prems(1) x(1) by (rule fadd_up(1))
  have 2: "fadd a x = PInf \<or> fadd a x = NaN \<or> (\<exists>x\<in>set xs. x = PInf \<or> x = NaN)"
    using Cons.prems(3) fadd_up(2)[OF Cons.prems(1) x(1)] by auto
  show ?case using Cons.IH[OF 1 x(2) 2] by simp
qed

lemma fadd_inf_source:
  "fadd a x = PInf \<Longrightarrow> a = PInf \<or> x = PInf"
  "fadd a x = NInf \<Longrightarrow> a = NInf \<or> x = NInf"
  by (cases a; cases x; simp)+

lemma foldl_fadd_pinf: "foldl fadd a xs = PInf \<Longrightarrow> a = PInf \<or> PInf \<in> set xs"
proof (induction xs arbitrary: a)
  case Nil
  then show ?case by simp
next
  case (Cons x xs)
  then have "fadd a x = PInf \<or> PInf \<in> set xs" by simp
  then show ?case using fadd_inf_source(1)[of a x] by auto
qed

lemma foldl_fadd_ninf: "foldl fadd a xs = NInf \<Longrightarrow> a = NInf \<or> NInf \<in> set xs"
proof (induction xs arbitrary: a)
  case Nil
  then show ?case by simp
next
  case (Cons x xs)
  then have "fadd a x = NInf \<or> NInf \<in> set xs" by simp
  then show ?case using fadd_inf_source(2)[of a x] by auto
qed

lemma foldl_map2_length:
  "\<forall>r\<in>set rs. length r = length acc \<Longrightarrow> length (foldl (map2 fadd) acc rs) = length acc"
proof (induction rs arbitrary: acc)
  case Nil
  then show ?case by simp
next
  case (Cons r rs)
  have l: "length (map2 fadd acc r) = length acc" using Cons.prems by simp
  have "\<forall>x\<in>set rs. length x = length (map2 fadd acc r)" using Cons.prems l by simp
  from Cons.IH[OF this] l show ?case by simp
qed

lemma foldl_map2_nth:
  "\<forall>r\<in>set rs. length r = length acc \<Longrightarrow> j < length acc \<Longrightarrow>
   foldl (map2 fadd) acc rs ! j = foldl fadd (acc ! j) (map (\<lambda>r. r ! j) rs)"
proof (induction rs arbitrary: acc)
  case Nil
  then show ?case by simp
next
  case (Cons r rs)
  have l: "length (map2 fadd acc r) = length acc" using Cons.prems by simp
  have "\<forall>x\<in>set rs. length x = length (map2 fadd acc r)" "j < length (map2 fadd acc r)"
    using Cons.prems l by simp_all
  from Cons.IH[OF this] Cons.prems l show ?case by simp
qed

lemma py_sum_length:
  assumes "rows \<noteq> []" "\<forall>r\<in>set rows. length r = c"
  shows "length (py_sum rows) = c"
proof -
  obtain r rs where rows: "rows = r # rs" using assms(1) by (cases rows) auto
  have "\<forall>x\<in>set rs. length x = length (map (fadd (Fin 0)) r)" using assms rows by simp
  from foldl_map2_length[OF this] assms rows show ?thesis by (simp add: py_sum_def)
qed

lemma py_sum_nth:
  assumes "rows \<noteq> []" "\<forall>r\<in>set rows. length r = c" "j < c"
  shows "py_sum rows ! j = fsum (map (\<lambda>r. r ! j) rows)"
proof -
  obtain r rs where rows: "rows = r # rs" using assms(1) by (cases rows) auto
  let ?acc = "map (fadd (Fin 0)) r"
  have a: "\<forall>x\<in>set rs. length x = length ?acc" "j < length ?acc"
    using assms rows by simp_all
  from foldl_map2_nth[OF a] assms rows show ?thesis
    by (simp add: py_sum_def fsum_def)
qed

lemma sq_dev:
  "(\<Sum>x\<leftarrow>xs. (x - m) * (x - m)) =
   (\<Sum>x\<leftarrow>xs. x * x) - 2 * m * sum_list xs + real (length xs) * m * m" for m :: real
  by (induction xs) (simp_all add: algebra_simps)

lemma var_identity:
  fixes xs :: "real list"
  assumes "xs \<noteq> []"
  shows "(\<Sum>x\<leftarrow>xs. (x - sum_list xs / real (length xs)) * (x - sum_list xs / real (length xs)))
       = (\<Sum>x\<leftarrow>xs. x * x) - sum_list xs * sum_list xs / real (length xs)"
proof -
  have "real (length xs) \<noteq> 0" using assms by simp
  then show ?thesis unfolding sq_dev by (simp add: field_simps)
qed

lemma square_up: "fmul x x \<noteq> NInf" "\<not> is_num x \<Longrightarrow> fmul x x = PInf \<or> fmul x x = NaN"
  by (cases x; simp)+

lemma var_column_not_num:
  assumes ne: "col \<noteq> []" and d: "0 < int (length col) - ddof" and x: "x \<in> set col" "\<not> is_num x"
  shows "fdiv (fsub (fsum (map (\<lambda>x. fmul x x) col))
                    (fdiv (fmul (fsum col) (fsum col)) (Fin (real (length col)))))
              (Fin (real_of_int (int (length col) - ddof))) = NaN"
    and "np_var col ddof = NaN"
proof -
  define mu where "mu = fsum col"
  define n where "n = Fin (real (length col))"
  have mu: "\<not> is_num mu"
    unfolding mu_def fsum_def using x by (intro foldl_fadd_not_num) auto
  have "NInf \<notin> set (map (\<lambda>x. fmul x x) col)"
    using square_up(1) by (metis (no_types, lifting) imageE list.set_map)
  moreover have "\<exists>y\<in>set (map (\<lambda>x. fmul x x) col). y = PInf \<or> y = NaN"
    using x square_up(2)[of x] by auto
  ultimately have s2: "fsum (map (\<lambda>x. fmul x x) col) = PInf \<or> fsum (map (\<lambda>x. fmul x x) col) = NaN"
    unfolding fsum_def by (intro foldl_fadd_up) simp_all
  have mm: "fdiv (fmul mu mu) n = PInf \<or> fdiv (fmul mu mu) n = NaN"
    using mu by (cases mu) (simp_all add: n_def)
  have "fsub (fsum (map (\<lambda>x. fmul x x) col)) (fdiv (fmul mu mu) n) = NaN"
    using s2 mm by (auto simp: fsub_def)
  then show "fdiv (fsub (fsum (map (\<lambda>x. fmul x x) col))
                    (fdiv (fmul (fsum col) (fsum col)) (Fin (real (length col)))))
              (Fin (real_of_int (int (length col) - ddof))) = NaN"
    by (simp add: mu_def n_def)
  have "\<exists>y\<in>set col. fsub y (fdiv mu n) = NaN"
  proof (cases mu)
    case (Fin r)
    then show ?thesis using mu by simp
  next
    case NaN
    then have "fsub x (fdiv mu n) = NaN" by (cases x) (simp_all add: fsub_def n_def)
    then show ?thesis using x(1) by blast
  next
    case PInf
    then have "PInf \<in> set col"
      using foldl_fadd_pinf[of "Fin 0" col] by (simp add: mu_def fsum_def)
    moreover have "fsub PInf (fdiv mu n) = NaN" using PInf by (simp add: fsub_def n_def)
    ultimately show ?thesis by blast
  next
    case NInf
    then have "NInf \<in> set col"
      using foldl_fadd_ninf[of "Fin 0" col] by (simp add: mu_def fsum_def)
    moreover have "fsub NInf (fdiv mu n) = NaN" using NInf by (simp add: fsub_def n_def)
    ultimately show ?thesis by blast
  qed
  then obtain y where y: "y \<in> set col" "fsub y (fdiv mu n) = NaN" by blast
  have "fmul (fsub y (fdiv mu n)) (fsub y (fdiv mu n))
          \<in> set (map (\<lambda>d. fmul d d) (map (\<lambda>v. fsub v (fdiv mu n)) col))"
    using y(1) by auto
  then have "NaN \<in> set (map (\<lambda>d. fmul d d) (map (\<lambda>v. fsub v (fdiv mu n)) col))"
    by (simp only: y(2) fmul.simps)
  then have "fsum (map (\<lambda>d. fmul d d) (map (\<lambda>v. fsub v (fdiv mu n)) col)) = NaN"
    by (rule fsum_nan)
  then show "np_var col ddof = NaN"
    unfolding np_var_def Let_def mu_def[symmetric] n_def[symmetric] by simp
qed

lemma var_column_num:
  assumes rs: "rs \<noteq> []" and d: "0 < int (length rs) - ddof"
  shows "fdiv (fsub (fsum (map (\<lambda>x. fmul x x) (map Fin rs)))
                    (fdiv (fmul (fsum (map Fin rs)) (fsum (map Fin rs)))
                          (Fin (real (length (map Fin rs))))))
              (Fin (real_of_int (int (length (map Fin rs)) - ddof)))
         = np_var (map Fin rs) ddof"
proof -
  define col where "col = map Fin rs"
  define S where "S = sum_list rs"
  define n where "n = real (length rs)"
  define dv where "dv = real_of_int (int (length rs) - ddof)"
  have n: "n \<noteq> 0" using rs by (simp add: n_def)
  have dv: "dv \<noteq> 0" "real_of_int (max (int (length rs) - ddof) 0) = dv"
    using d by (simp_all add: dv_def max_def)
  have sq: "map (\<lambda>x. fmul x x) (map Fin rs) = map Fin (map (\<lambda>x. x * x) rs)"
    by simp
  have dev: "map (\<lambda>d. fmul d d) (map (\<lambda>v. fsub v (Fin m)) (map Fin rs))
           = map Fin (map (\<lambda>x. (x - m) * (x - m)) rs)" for m
    by (simp add: fsub_def)
  have s1: "fsum col = Fin S" unfolding col_def S_def by (rule fsum_fin)
  have s2: "fsum (map (\<lambda>x. fmul x x) col) = Fin (\<Sum>x\<leftarrow>rs. x * x)"
    unfolding col_def sq by (rule fsum_fin)
  have mean: "fdiv (Fin S) (Fin (real (length col))) = Fin (S / n)"
    using n by (simp add: col_def n_def)
  have s3: "fsum (map (\<lambda>d. fmul d d) (map (\<lambda>v. fsub v (Fin (S / n))) col))
            = Fin (\<Sum>x\<leftarrow>rs. (x - S / n) * (x - S / n))"
    unfolding col_def dev by (rule fsum_fin)
  have lhs: "fsub (fsum (map (\<lambda>x. fmul x x) col))
                  (fdiv (fmul (fsum col) (fsum col)) (Fin (real (length col))))
             = Fin ((\<Sum>x\<leftarrow>rs. x * x) - S * S / n)"
    unfolding s1 s2 using n by (simp add: fsub_def col_def n_def)
  have rhs: "np_var col ddof
             = fdiv (Fin (\<Sum>x\<leftarrow>rs. (x - S / n) * (x - S / n))) (Fin dv)"
    unfolding np_var_def Let_def s1 mean s3 by (simp add: col_def dv(2))
  have "fdiv (fsub (fsum (map (\<lambda>x. fmul x x) col))
                  (fdiv (fmul (fsum col) (fsum col)) (Fin (real (length col)))))
             (Fin (real_of_int (int (length col) - ddof))) = np_var col ddof"
    unfolding lhs rhs using var_identity[OF rs] dv(1)
    by (simp add: S_def n_def col_def dv_def)
  then show ?thesis by (simp only: col_def)
qed

lemma var_column:
  assumes ne: "col \<noteq> []" and d: "0 < int (length col) - ddof"
  shows "fdiv (fsub (fsum (map (\<lambda>x. fmul x x) col))
                    (fdiv (fmul (fsum col) (fsum col)) (Fin (real (length col)))))
              (Fin (real_of_int (int (length col) - ddof)))
         = np_var col ddof"
proof (cases "\<forall>x\<in>set col. is_num x")
  case True
  then obtain rs where col: "col = map Fin rs" using all_num_reals by blast
  have "rs \<noteq> []" "0 < int (length rs) - ddof" using ne d col by simp_all
  then show ?thesis unfolding col by (rule var_column_num)
next
  case False
  then obtain x where "x \<in> set col" "\<not> is_num x" by blast
  from var_column_not_num[OF ne d this] show ?thesis by simp
qed

text \<open>
  C10, as stated, fails above the length: with \<open>ddof = 4\<close> on three rows the divisor
  \<open>N - ddof\<close> is \<open>-1\<close>, not zero; the base class divides by it and returns a negative
  number, the backend divides by 0 and returns an infinity.
\<close>

theorem var_ddof_above_length_counterexample:
  "TimeSeries_var ex3 4 = Some [Fin (- (38 / 3))] \<and> Numpy_var ex3 4 = Inr [PInf]"
  by (simp add: TimeSeries_var_def Numpy_var_def np_var_def py_sum_def fsum_def fsub_def
      ex3_def len_def shape_def values_ts_def ncols_def Let_def)

text \<open>
  C10, amended. On a non-empty store with \<open>ddof < N\<close> the base class's
  \<open>(sum(v*v) - sum(v)*sum(v)/N)/(N-ddof)\<close> and the backend's variance, the sum of the
  squared deviations from the mean over \<open>N - ddof\<close>, are the same vector, column by
  column, in exact arithmetic.
\<close>

theorem var_equivalence:
  assumes wf: "shaped s" and pos: "0 < len s" and d: "ddof < int (len s)"
  shows "\<exists>v. TimeSeries_var s ddof = Some v \<and> Numpy_var s ddof = Inr v"
proof -
  from wf pos obtain ds rows where s: "data s = Some rows" "rows \<noteq> []"
    "\<forall>r\<in>set rows. length r = ncols rows"
    by (rule shaped_nonempty)
  define c where "c = ncols rows"
  define N where "N = length rows"
  define col where "col = (\<lambda>j. map (\<lambda>r. r ! j) rows)"
  define sqrows where "sqrows = map (map (\<lambda>x. fmul x x)) rows"
  have N: "len s = N" by (simp add: len_def shape_def s N_def)
  have w: "\<forall>r\<in>set rows. length r = c" using s(3) by (simp add: c_def)
  have wsq: "sqrows \<noteq> []" "\<forall>r\<in>set sqrows. length r = c"
    using s(2) w by (auto simp: sqrows_def)
  have colsq: "map (\<lambda>r. r ! j) sqrows = map (\<lambda>x. fmul x x) (col j)" if "j < c" for j
    using that w by (simp add: sqrows_def col_def)
  have lcol: "length (col j) = N" "col j \<noteq> []" for j
    using s(2) by (simp_all add: col_def N_def)
  define base where "base =
    map (\<lambda>x. fdiv x (Fin (real_of_int (int N - ddof))))
      (map2 fsub (py_sum sqrows) (map (\<lambda>m. fdiv (fmul m m) (Fin (real N))) (py_sum rows)))"
  have tv: "TimeSeries_var s ddof = Some base"
    using pos by (simp add: TimeSeries_var_def N values_ts_def s base_def sqrows_def Let_def)
  have nv: "Numpy_var s ddof = Inr (map (\<lambda>j. np_var (col j) ddof) [0..<c])"
    by (simp add: Numpy_var_def s c_def col_def)
  have lb: "length base = c"
    by (simp add: base_def py_sum_length[OF wsq] py_sum_length[OF s(2) w])
  have "base ! j = np_var (col j) ddof" if j: "j < c" for j
  proof -
    have "base ! j = fdiv (fsub (fsum (map (\<lambda>x. fmul x x) (col j)))
                       (fdiv (fmul (fsum (col j)) (fsum (col j))) (Fin (real N))))
                     (Fin (real_of_int (int N - ddof)))"
      using j
      by (simp add: base_def py_sum_length[OF wsq] py_sum_length[OF s(2) w]
          py_sum_nth[OF wsq j] py_sum_nth[OF s(2) w j] colsq col_def del: of_int_diff)
    also have "\<dots> = np_var (col j) ddof"
      using var_column[of "col j" ddof] d lcol[of j] N by simp
    finally show ?thesis .
  qed
  then have "base = map (\<lambda>j. np_var (col j) ddof) [0..<c]"
    using lb by (intro nth_equalityI) simp_all
  then show ?thesis using tv nv by simp
qed

theorem var_equivalence_witness:
  "TimeSeries_var ex3 1 = Some [Fin (19 / 3)] \<and> Numpy_var ex3 1 = Inr [Fin (19 / 3)]"
proof -
  have "0 < len ex3" "1 < int (len ex3)" by (simp_all add: len_ex3)
  from var_equivalence[OF shaped_ex3 this]
  show ?thesis
    by (simp add: Numpy_var_def ex3_def ncols_def np_var_def fsum_def fsub_def Let_def)
qed

subsection \<open>Cleaning a store without missing values\<close>

text \<open>
  C4, as stated, fails on a store without columns: no column yields a key, so two keys
  with two empty rows come back as the empty store.
\<close>

theorem clean_no_columns_counterexample:
  "TimeSeries_clean ex_nocols None = Inr \<lparr>date = None, data = None, skl = [], date_owned = True,
       data_owned = True\<rparr> \<and>
   dates ex_nocols = [1, 2]"
  by (simp add: clean_eval ex_nocols_def)

lemma update_fresh: "k \<notin> fst ` set al \<Longrightarrow> AList.update k v al = al @ [(k, v)]"
  by (induction al) auto

lemma clean_step_valid:
  assumes "v \<noteq> NaN" "missings st = []"
  shows "clean_step alg dt st (d, v) =
         Inr (st\<lparr>dstart := (if dstart st = None then Some d else dstart st),
                 dend := Some d, vend := Some v, vals := AList.update d v (vals st)\<rparr>)"
  using assms by (simp add: clean_step_def py_eq_def)

lemma clean_loop_valid:
  assumes "missings st = []" "NaN \<notin> snd ` set zs" "distinct (map fst zs)"
    "fst ` set zs \<inter> fst ` set (vals st) = {}"
  shows "\<exists>st'. clean_loop alg dt st zs = Inr st' \<and> missings st' = [] \<and>
           vals st' = vals st @ zs \<and>
           dstart st' = (case dstart st of
                           None \<Rightarrow> (case zs of [] \<Rightarrow> None | z # _ \<Rightarrow> Some (fst z))
                         | Some a \<Rightarrow> Some a) \<and>
           dend st' = (if zs = [] then dend st else Some (fst (last zs)))"
  using assms
proof (induction zs arbitrary: st)
  case Nil
  then show ?case by (simp split: option.splits)
next
  case (Cons z zs)
  obtain d v where z: "z = (d, v)" by (cases z)
  define st1 where "st1 = st\<lparr>dstart := (if dstart st = None then Some d else dstart st),
                 dend := Some d, vend := Some v, vals := AList.update d v (vals st)\<rparr>"
  have v: "v \<noteq> NaN" using Cons.prems(2) z by force
  have step: "clean_step alg dt st z = Inr st1"
    unfolding z st1_def using v Cons.prems(1) by (rule clean_step_valid)
  have fresh: "d \<notin> fst ` set (vals st)" using Cons.prems(4) z by auto
  have vals1: "vals st1 = vals st @ [(d, v)]" by (simp add: st1_def update_fresh[OF fresh])
  have m1: "missings st1 = []" using Cons.prems(1) by (simp add: st1_def)
  have p4: "fst ` set zs \<inter> fst ` set (vals st1) = {}"
    unfolding vals1 using Cons.prems(3,4) z by auto
  have p: "missings st1 = []" "NaN \<notin> snd ` set zs" "distinct (map fst zs)"
    "fst ` set zs \<inter> fst ` set (vals st1) = {}"
    using Cons.prems(2,3) m1 p4 by auto
  from Cons.IH[OF p] obtain st' where st': "clean_loop alg dt st1 zs = Inr st'"
    "missings st' = []" "vals st' = vals st1 @ zs"
    "dstart st' = (case dstart st1 of
                           None \<Rightarrow> (case zs of [] \<Rightarrow> None | z # _ \<Rightarrow> Some (fst z))
                         | Some a \<Rightarrow> Some a)"
    "dend st' = (if zs = [] then dend st1 else Some (fst (last zs)))" by blast
  have "clean_loop alg dt st (z # zs) = Inr st'" using step st'(1) by simp
  moreover have "vals st' = vals st @ z # zs" using st'(3) vals1 z by simp
  moreover have "dstart st' = (case dstart st of None \<Rightarrow> Some (fst z) | Some a \<Rightarrow> Some a)"
    using st'(4) by (simp add: st1_def z split: option.splits)
  moreover have "dend st' = Some (fst (last (z # zs)))"
    using st'(5) by (simp add: st1_def z)
  ultimately show ?case using st'(2) by (intro exI[of _ st']) (simp split: option.splits)
qed

lemma clean_column_valid:
  assumes "ds \<noteq> []" "distinct ds" "length col = length ds" "NaN \<notin> set col"
  shows "clean_column alg dt ds col = Inr (Some (hd ds), Some (last ds), zip ds col)"
proof -
  have z: "zip ds col \<noteq> []" "hd (zip ds col) = (hd ds, hd col)" "map fst (zip ds col) = ds"
    using assms(1,3) by (cases ds; cases col; simp)+
  have l: "fst (last (zip ds col)) = last ds"
    using z(1) z(3) by (metis last_map)
  have p: "missings (col_init :: 'a colstate) = []" "NaN \<notin> snd ` set (zip ds col)"
    "distinct (map fst (zip ds col))"
    "fst ` set (zip ds col) \<inter> fst ` set (vals (col_init :: 'a colstate)) = {}"
    using assms by (auto simp: col_init_def z(3) dest: set_zip_rightD)
  from clean_loop_valid[OF p, of alg dt] obtain st' where
    st': "clean_loop alg dt col_init (zip ds col) = Inr st'" "missings st' = []"
      "vals st' = zip ds col" "dstart st' = Some (hd ds)" "dend st' = Some (last ds)"
    using z l by (cases "zip ds col") (auto simp: col_init_def)
  then show ?thesis by (simp add: clean_column_def clean_tail_def)
qed

lemma clean_series_valid:
  assumes "ds \<noteq> []" "distinct ds" "\<forall>col\<in>set cols. length col = length ds \<and> NaN \<notin> set col"
  shows "clean_series alg dt ds cols =
         Inr (map (\<lambda>col. (Some (hd ds), Some (last ds), zip ds col)) cols)"
  using assms(3)
proof (induction cols)
  case Nil
  then show ?case by simp
next
  case (Cons col cols)
  have "clean_column alg dt ds col = Inr (Some (hd ds), Some (last ds), zip ds col)"
    using Cons.prems assms(1,2) by (intro clean_column_valid) simp_all
  moreover have "clean_series alg dt ds cols =
         Inr (map (\<lambda>col. (Some (hd ds), Some (last ds), zip ds col)) cols)"
    using Cons by simp
  ultimately show ?case by simp
qed

lemma cross_loop_valid:
  assumes "distinct ds" "i < length ds" "lo \<le> ds ! i" "ds ! i \<le> hi"
    "\<forall>col\<in>set cols. length col = length ds"
  shows "cross_loop (ds ! i) acc (map (\<lambda>col. (Some lo, Some hi, zip ds col)) cols) =
         Inr (Some (acc @ map (\<lambda>col. col ! i) cols))"
  using assms(5)
proof (induction cols arbitrary: acc)
  case Nil
  then show ?case by simp
next
  case (Cons col cols)
  have "map_of (zip ds col) (ds ! i) = Some (col ! i)"
    using Cons.prems assms(1,2) by (intro map_of_zip_nth) simp_all
  moreover have "in_window (ds ! i) (Some lo) (Some hi) = Inr True"
    using assms(3,4) by (simp add: in_window_def)
  ultimately show ?case using Cons by simp
qed

lemma clean_rows_valid:
  assumes "distinct ds" "sorted ds" "cols \<noteq> []" "\<forall>col\<in>set cols. length col = length ds"
    "\<forall>i\<in>set is. i < length ds"
  shows "clean_rows (map ((!) ds) is) (map (\<lambda>col. (Some (hd ds), Some (last ds), zip ds col)) cols) =
         Inr (map ((!) ds) is, map (\<lambda>i. map (\<lambda>col. col ! i) cols) is)"
  using assms(5)
proof (induction "is")
  case Nil
  then show ?case by simp
next
  case (Cons i "is")
  have i: "i < length ds" using Cons.prems by simp
  then have ne: "ds \<noteq> []" by auto
  have lo: "hd ds \<le> ds ! i"
    using assms(2) i ne by (simp add: hd_conv_nth sorted_nth_mono)
  have hi: "ds ! i \<le> last ds"
    using assms(2) i ne by (simp add: last_conv_nth sorted_nth_mono)
  have cross: "cross_loop (ds ! i) [] (map (\<lambda>col. (Some (hd ds), Some (last ds), zip ds col)) cols) =
         Inr (Some (map (\<lambda>col. col ! i) cols))"
    using cross_loop_valid[OF assms(1) i lo hi assms(4), of "[]"] by simp
  obtain c cs where cs: "map (\<lambda>col. col ! i) cols = c # cs"
    using assms(3) by (cases cols) auto
  show ?case using Cons cross by (simp add: cs)
qed

lemma series_columns:
  assumes "rows \<noteq> []" "\<forall>r\<in>set rows. length r = c"
  shows "map (\<lambda>i. map (\<lambda>col. col ! i) (map (\<lambda>j. map (\<lambda>r. r ! j) rows) [0..<c])) [0..<length rows]
         = rows"
proof (rule nth_equalityI)
  show "length (map (\<lambda>i. map (\<lambda>col. col ! i) (map (\<lambda>j. map (\<lambda>r. r ! j) rows) [0..<c])) [0..<length rows])
        = length rows" by simp
next
  fix i
  assume "i < length (map (\<lambda>i. map (\<lambda>col. col ! i) (map (\<lambda>j. map (\<lambda>r. r ! j) rows) [0..<c])) [0..<length rows])"
  then have i: "i < length rows" by simp
  then have "length (rows ! i) = c" using assms(2) by simp
  then have "map (\<lambda>j. rows ! i ! j) [0..<c] = rows ! i" by (metis map_nth)
  then show "map (\<lambda>i. map (\<lambda>col. col ! i) (map (\<lambda>j. map (\<lambda>r. r ! j) rows) [0..<c])) [0..<length rows] ! i
        = rows ! i" using i by (simp add: comp_def)
qed

text \<open>
  C4, amended. On a store with at least one column (keys strictly increasing, one row
  per key) in which no value is missing, clean returns the same key sequence and the
  same value matrix, whatever the algorithm, also without one.
\<close>

theorem clean_no_missing:
  assumes wf: "wf_store s" and c: "0 < count s" and valid: "\<forall>r\<in>set (values_ts s). NaN \<notin> set r"
  shows "\<exists>r. TimeSeries_clean s algorithm = Inr r \<and> dates r = dates s \<and>
             values_ts r = values_ts s"
proof -
  have pos: "0 < len s"
    using c by (auto simp: count_def len_def shape_def ncols_def split: option.splits list.splits)
  from wf pos obtain ds rows where s: "date s = Some ds" "data s = Some rows"
    "length ds = length rows" "rows \<noteq> []" "sorted ds" "distinct ds"
    "\<forall>r\<in>set rows. length r = ncols rows"
    by (rule wf_nonempty)
  define C where "C = ncols rows"
  define cols where "cols = map (\<lambda>j. map (\<lambda>r. r ! j) rows) [0..<C]"
  define entries where "entries = map (\<lambda>col. (Some (hd ds), Some (last ds), zip ds col)) cols"
  have C: "0 < C" "count s = C" using c by (simp_all add: C_def count_def shape_def s)
  have ne: "ds \<noteq> []" using s(3,4) by auto
  have ser: "series s = cols"
    using s(4) by (simp add: series_def values_ts_def s cols_def C)
  have cne: "cols \<noteq> []" using C(1) by (simp add: cols_def)
  have w: "\<forall>r\<in>set rows. length r = C" using s(7) by (simp add: C_def)
  have nonan: "\<forall>r\<in>set rows. NaN \<notin> set r" using valid by (simp add: values_ts_def s)
  have colp: "\<forall>col\<in>set cols. length col = length ds \<and> NaN \<notin> set col"
  proof
    fix col assume "col \<in> set cols"
    then obtain j where j: "j < C" "col = map (\<lambda>r. r ! j) rows" by (auto simp: cols_def)
    have "r ! j \<noteq> NaN" if "r \<in> set rows" for r
      using that w nonan j(1) by (metis nth_mem)
    then show "length col = length ds \<and> NaN \<notin> set col" using j(2) s(3) by force
  qed
  have e: "clean_series algorithm None ds cols = Inr entries"
    unfolding entries_def using ne s(6) colp by (rule clean_series_valid)
  have keys: "map (\<lambda>(start, en, values). map fst values) entries = map (\<lambda>col. ds) cols"
    using colp by (simp add: entries_def)
  have "set (concat (map (\<lambda>col. ds) cols)) = set ds" using cne by (cases cols) auto
  then have "sort (remdups (concat (map (\<lambda>col. ds) cols))) = sorted_list_of_set (set ds)"
    by (metis sorted_list_of_set_sort_remdups)
  also have "\<dots> = ds" using s(5,6) by (rule sorted_list_of_set.idem_if_sorted_distinct)
  finally have ad: "sort (remdups (concat (map (\<lambda>(start, en, values). map fst values) entries))) = ds"
    by (simp only: keys)
  have idx: "map ((!) ds) [0..<length ds] = ds" by (rule map_nth)
  have "clean_rows (map ((!) ds) [0..<length ds]) entries =
         Inr (map ((!) ds) [0..<length ds], map (\<lambda>i. map (\<lambda>col. col ! i) cols) [0..<length ds])"
    unfolding entries_def using s(6,5) cne colp by (intro clean_rows_valid) simp_all
  moreover have "map (\<lambda>i. map (\<lambda>col. col ! i) cols) [0..<length ds] = rows"
    unfolding cols_def s(3) by (rule series_columns[OF s(4) w])
  ultimately have rws: "clean_rows ds entries = Inr (ds, rows)"
    unfolding idx by (simp only:)
  have "TimeSeries_clean s algorithm = Inr (clone s (Some ds) (Some (Rows rows)))"
    by (simp add: TimeSeries_clean_def dates_def s(1) ser e ad rws del: sort_key_simps)
  moreover have "dates (clone s (Some ds) (Some (Rows rows))) = ds"
    "values_ts (clone s (Some ds) (Some (Rows rows))) = rows"
    using ne by (simp_all add: clone_def Numpy_make_def Let_def dates_def values_ts_def)
  ultimately show ?thesis by (simp add: dates_def values_ts_def s)
qed

lemma count_ex3: "0 < count ex3" by (simp add: count_def shape_def ex3_def ncols_def)

theorem clean_no_missing_witness:
  "TimeSeries_clean ex3 (Some no_fill) = Inr ex3"
proof -
  have "\<forall>r\<in>set (values_ts ex3). NaN \<notin> set r" by (simp add: values_ts_def ex3_def)
  from clean_no_missing[OF wf_ex3 count_ex3 this, of "Some no_fill"]
  show ?thesis
    by (auto simp: dates_def values_ts_def ex3_def clean_eval skl_insert_def Let_def)
qed

subsection \<open>Insertion\<close>

lemma insort_take_drop:
  "sorted xs \<Longrightarrow>
   insort k xs = take (length (filter (\<lambda>x. x < k) xs)) xs @ k # drop (length (filter (\<lambda>x. x < k) xs)) xs"
proof (induction xs)
  case Nil
  then show ?case by simp
next
  case (Cons x xs)
  show ?case
  proof (cases "k \<le> x")
    case True
    then have "filter (\<lambda>y. y < k) xs = []" using Cons.prems by (auto simp: filter_empty_conv)
    then show ?thesis using True by auto
  next
    case False
    then show ?thesis using Cons by simp
  qed
qed

lemma rank_index:
  "sorted xs \<Longrightarrow> distinct xs \<Longrightarrow> k \<in> set xs \<Longrightarrow>
   length (filter (\<lambda>x. x < k) xs) < length xs \<and> xs ! length (filter (\<lambda>x. x < k) xs) = k"
proof (induction xs)
  case Nil
  then show ?case by simp
next
  case (Cons x xs)
  show ?case
  proof (cases "k = x")
    case True
    then have "filter (\<lambda>y. y < k) xs = []" using Cons.prems by (auto simp: filter_empty_conv)
    then show ?thesis using True by simp
  next
    case False
    then have "x < k" "k \<in> set xs" using Cons.prems by auto
    then show ?thesis using Cons by simp
  qed
qed

lemma resize_grow: "np_resize True (Suc (length xs)) z xs = Inr (xs @ [z])"
  by (simp add: np_resize_def)

lemma shift_resize:
  "i < length xs \<Longrightarrow> (shift_up i (xs @ [z]))[i := k] = take i xs @ k # drop i xs"
  by (simp add: shift_up_def take_Suc_conv_app_nth list_update_append)

lemma grow_last: "i = length xs \<Longrightarrow> (xs @ [z])[i := k] = take i xs @ k # drop i xs"
  by simp

lemma map_of_insert_mid:
  assumes "length A = length A'" "k \<notin> set A"
  shows "map_of (zip (A @ k # B) (A' @ v # B')) = (map_of (zip A A' @ zip B B'))(k \<mapsto> v)"
proof
  fix x
  have none: "map_of (zip A A') k = None"
    using assms by (auto simp: map_of_eq_None_iff dest: set_zip_leftD)
  have z: "zip (A @ k # B) (A' @ v # B') = zip A A' @ (k, v) # zip B B'"
    using assms(1) by (simp add: zip_append)
  show "map_of (zip (A @ k # B) (A' @ v # B')) x = ((map_of (zip A A' @ zip B B'))(k \<mapsto> v)) x"
  proof (cases "x = k")
    case True
    then show ?thesis using none by (simp add: z map_add_def)
  next
    case False
    then show ?thesis by (simp add: z map_add_def split: option.splits)
  qed
qed

lemma wf_empty:
  assumes "wf_store s" "len s = 0"
  shows "date s = None" "data s = None" "skl s = []"
  using assms
  by (auto simp: wf_store_def len_def shape_def split: option.splits)

lemma insert_first:
  assumes "wf_store s" "len s = 0" "row \<noteq> []"
  shows "Numpy_insert s k row =
         Inr (s\<lparr>date := Some [k], data := Some [row], skl := [k],
                 date_owned := True, data_owned := True\<rparr>)"
  using assms wf_empty[OF assms(1,2)] by (simp add: Numpy_insert_def skl_insert_def)

lemma insert_absent:
  assumes s: "date s = Some ds" "data s = Some rows" "length ds = length rows" "rows \<noteq> []"
    "sorted ds" "\<forall>r\<in>set rows. length r = ncols rows" "skl s = ds"
    and own: "date_owned s" "data_owned s"
    and k: "k \<notin> set ds" and v: "row \<noteq> []" "length row = ncols rows"
  defines "i \<equiv> length (filter (\<lambda>x. x < k) ds)"
  shows "Numpy_insert s k row =
         Inr (s\<lparr>date := Some (take i ds @ k # drop i ds),
                 data := Some (take i rows @ row # drop i rows),
                 skl := insort k ds\<rparr>)"
proof -
  let ?N = "length rows"
  have len: "len s = ?N" "count s = ncols rows" "values_ts s = rows"
    by (simp_all add: len_def count_def shape_def values_ts_def s)
  have rk: "rank ds k = - int i - 1" using k by (simp add: rank_def i_def)
  have i: "i \<le> ?N" unfolding i_def s(3)[symmetric] by (rule length_filter_le)
  have idx: "nat (- 1 - (- int i - 1)) = i" by simp
  define z where "z = replicate (ncols rows) (Fin 0)"
  define ds1 where "ds1 = (if i < ?N then shift_up i (ds @ [0]) else ds @ [0])"
  define rows1 where "rows1 = (if i < ?N then shift_up i (rows @ [z]) else rows @ [z])"
  have g: "np_resize (date_owned s) (Suc ?N) 0 ds = Inr (ds @ [0])"
    "np_resize (data_owned s) (Suc ?N) z rows = Inr (rows @ [z])"
    using resize_grow[of ds 0] resize_grow[of rows z] own by (simp_all add: s(3))
  have l1: "length ds1 = Suc ?N" "length rows1 = Suc ?N"
    using i s(3) by (auto simp: ds1_def rows1_def shift_up_def)
  have d2: "ds1[i := k] = take i ds @ k # drop i ds"
    using i s(3) shift_resize[of i ds 0 k] grow_last[of i ds 0 k]
    by (cases "i < ?N") (simp_all add: ds1_def)
  have r2: "rows1[i := row] = take i rows @ row # drop i rows"
    using i shift_resize[of i rows z row] grow_last[of i rows z row]
    by (cases "i < ?N") (simp_all add: rows1_def)
  have ri: "length (rows1 ! i) = ncols rows"
  proof (cases "i < ?N")
    case True
    then have "rows1 ! i = rows ! i"
      by (simp add: rows1_def shift_up_def nth_append)
    then show ?thesis using True s(6) by simp
  next
    case False
    then have "i = ?N" using i by simp
    then show ?thesis by (simp add: rows1_def z_def)
  qed
  have si: "np_setitem ds1 i k = Inr (take i ds @ k # drop i ds)"
    using i l1 by (simp add: np_setitem_def d2)
  have sr: "np_setrow rows1 i row = Inr (take i rows @ row # drop i rows)"
    using i l1 ri v(2) by (simp add: np_setrow_def r2)
  have neg: "- int i - 1 < 0" by simp
  have "Numpy_insert s k row = write_row s k row i ds1 rows1"
    unfolding Numpy_insert_def len s(1,7) rk Let_def idx ds1_def rows1_def z_def
    using v(1) s(4) neg by (simp add: g[unfolded z_def] del: diff_minus_eq_add)
  then show ?thesis using k by (simp add: write_row_def si sr s(7) skl_insert_def)
qed

lemma insert_present:
  assumes s: "date s = Some ds" "data s = Some rows" "length ds = length rows" "rows \<noteq> []"
    "sorted ds" "distinct ds" "\<forall>r\<in>set rows. length r = ncols rows" "skl s = ds"
    and k: "k \<in> set ds" and v: "row \<noteq> []" "length row = ncols rows"
  defines "i \<equiv> length (filter (\<lambda>x. x < k) ds)"
  shows "Numpy_insert s k row = Inr (s\<lparr>date := Some ds, data := Some (rows[i := row]), skl := ds\<rparr>)"
    and "i < length ds" and "ds ! i = k"
proof -
  have len: "len s = length rows" "count s = ncols rows" "values_ts s = rows"
    by (simp_all add: len_def count_def shape_def values_ts_def s)
  show i: "i < length ds" and di: "ds ! i = k"
    using rank_index[OF s(5,6) k] by (simp_all add: i_def)
  have rk: "rank ds k = int i" using k by (simp add: rank_def i_def)
  have "rows ! i \<in> set rows" using i s(3) by simp
  then have ri: "length (rows ! i) = ncols rows" using s(7) by blast
  have si: "np_setitem ds i k = Inr ds"
    using i di list_update_id[of ds i] by (simp add: np_setitem_def)
  have sr: "np_setrow rows i row = Inr (rows[i := row])"
    using i s(3) ri v(2) by (simp add: np_setrow_def)
  show "Numpy_insert s k row = Inr (s\<lparr>date := Some ds, data := Some (rows[i := row]), skl := ds\<rparr>)"
    unfolding Numpy_insert_def len s(1,8) rk Let_def
    using v(1) s(4) k by (simp add: write_row_def si sr s(8) skl_insert_def)
qed

lemma ncols_uniform:
  "rows \<noteq> [] \<Longrightarrow> \<forall>r\<in>set rows. length r = c \<Longrightarrow> ncols rows = c"
  by (cases rows) (simp_all add: ncols_def)

lemma insert_step:
  assumes wf: "wf_store s" and v: "row \<noteq> []" "0 < len s \<Longrightarrow> length row = count s"
    and own: "0 < len s \<Longrightarrow> date_owned s \<and> data_owned s"
  shows "\<exists>s'. Numpy_insert s k row = Inr s' \<and> wf_store s' \<and> 0 < len s' \<and>
              date_owned s' \<and> data_owned s' \<and>
              count s' = length row \<and>
              dates s' = sorted_list_of_set (insert k (set (dates s))) \<and>
              row_at s' = (row_at s)(k \<mapsto> row) \<and>
              (k \<in> set (dates s) \<longrightarrow>
                 len s' = len s \<and> dates s' = dates s \<and>
                 (\<exists>i < len s. dates s ! i = k \<and> values_ts s' = (values_ts s)[i := row]))"
proof (cases "len s = 0")
  case True
  define s' where "s' = s\<lparr>date := Some [k], data := Some [row], skl := [k],
                          date_owned := True, data_owned := True\<rparr>"
  have e: "date s = None" "data s = None" using wf_empty[OF wf True] by simp_all
  have "Numpy_insert s k row = Inr s'" unfolding s'_def using wf True v(1) by (rule insert_first)
  moreover have "wf_store s'" by (simp add: s'_def wf_store_def ncols_def)
  moreover have "0 < len s'" "count s' = length row" "date_owned s'" "data_owned s'"
    by (simp_all add: s'_def len_def count_def shape_def ncols_def)
  moreover have "dates s' = sorted_list_of_set (insert k (set (dates s)))"
    by (simp add: s'_def dates_def e)
  moreover have "row_at s' = (row_at s)(k \<mapsto> row)"
    by (rule ext) (simp add: row_at_def s'_def dates_def values_ts_def e)
  moreover have "k \<notin> set (dates s)" by (simp add: dates_def e)
  ultimately show ?thesis by blast
next
  case False
  then have pos: "0 < len s" by simp
  from wf pos obtain ds rows where s: "date s = Some ds" "data s = Some rows"
    "length ds = length rows" "rows \<noteq> []" "sorted ds" "distinct ds"
    "\<forall>r\<in>set rows. length r = ncols rows" "skl s = ds"
    by (rule wf_nonempty)
  have len: "len s = length rows" "count s = ncols rows" "values_ts s = rows" "dates s = ds"
    by (simp_all add: len_def count_def shape_def values_ts_def dates_def s)
  have w: "length row = ncols rows" using v(2) pos len by simp
  have o: "date_owned s" "data_owned s" using own pos by simp_all
  define i where "i = length (filter (\<lambda>x. x < k) ds)"
  show ?thesis
  proof (cases "k \<in> set ds")
    case True
    define s' where "s' = s\<lparr>date := Some ds, data := Some (rows[i := row]), skl := ds\<rparr>"
    note p = insert_present[OF s True v(1) w, folded i_def]
    have all: "\<forall>r\<in>set (rows[i := row]). length r = ncols rows"
      using s(7) w by (auto dest!: set_update_subset_insert[THEN subsetD])
    have nc: "ncols (rows[i := row]) = ncols rows"
      using s(4) all by (intro ncols_uniform) simp_all
    have "Numpy_insert s k row = Inr s'" unfolding s'_def by (rule p(1))
    moreover have "wf_store s'"
      using s all nc True by (auto simp: s'_def wf_store_def list_all_iff)
    moreover have "0 < len s'" "count s' = length row" "len s' = len s" "dates s' = dates s"
      "date_owned s'" "data_owned s'"
      using s(4) nc w o by (simp_all add: s'_def len_def count_def shape_def dates_def s)
    moreover have "dates s' = sorted_list_of_set (insert k (set (dates s)))"
      using True s(5,6)
      by (simp add: s'_def dates_def s insert_absorb sorted_list_of_set.idem_if_sorted_distinct)
    moreover have "row_at s' = (row_at s)(k \<mapsto> row)"
    proof -
      have ds: "ds = take i ds @ k # drop (Suc i) ds"
        using p(2,3) by (metis id_take_nth_drop)
      have old: "rows = take i rows @ rows ! i # drop (Suc i) rows"
        using p(2) s(3) by (simp add: id_take_nth_drop)
      have new: "rows[i := row] = take i rows @ row # drop (Suc i) rows"
        using p(2) s(3) by (simp add: upd_conv_take_nth_drop)
      have l: "length (take i ds) = length (take i rows)" using s(3) by simp
      have notin: "k \<notin> set (take i ds)"
        using s(6) ds by (metis distinct_append disjoint_iff list.set_intros(1) distinct.simps(2) not_distinct_conv_prefix)
      have a: "map_of (zip ds (rows[i := row])) =
               (map_of (zip (take i ds) (take i rows) @ zip (drop (Suc i) ds) (drop (Suc i) rows)))(k \<mapsto> row)"
        using map_of_insert_mid[OF l notin, of "drop (Suc i) ds" row "drop (Suc i) rows"] ds new
        by simp
      have b: "map_of (zip ds rows) =
               (map_of (zip (take i ds) (take i rows) @ zip (drop (Suc i) ds) (drop (Suc i) rows)))(k \<mapsto> rows ! i)"
        using map_of_insert_mid[OF l notin, of "drop (Suc i) ds" "rows ! i" "drop (Suc i) rows"] ds old
        by simp
      show ?thesis
        by (rule ext) (simp add: row_at_def s'_def dates_def values_ts_def s a b)
    qed
    moreover have "\<exists>j < len s. dates s ! j = k \<and> values_ts s' = (values_ts s)[j := row]"
      using p(2,3) s(3) by (intro exI[of _ i]) (simp add: len s'_def values_ts_def s(2))
    ultimately show ?thesis by blast
  next
    case False
    define s' where "s' = s\<lparr>date := Some (take i ds @ k # drop i ds),
                 data := Some (take i rows @ row # drop i rows), skl := insort k ds\<rparr>"
    have ins: "take i ds @ k # drop i ds = insort k ds"
      unfolding i_def using s(5) by (rule insort_take_drop[symmetric])
    have all: "\<forall>r\<in>set (take i rows @ row # drop i rows). length r = ncols rows"
      using s(7) w by (auto dest: in_set_takeD in_set_dropD)
    have nc: "ncols (take i rows @ row # drop i rows) = ncols rows"
      using all by (intro ncols_uniform) simp_all
    have il: "i \<le> length ds" unfolding i_def by (rule length_filter_le)
    have "Numpy_insert s k row = Inr s'"
      unfolding s'_def i_def using s(1-5,7,8) o False v(1) w by (rule insert_absent)
    moreover have "wf_store s'"
      using s all nc False il
      by (simp add: s'_def wf_store_def list_all_iff ins sorted_insort distinct_insort del: set_append)
    moreover have "0 < len s'" "count s' = length row" "date_owned s'" "data_owned s'"
      using nc w o by (simp_all add: s'_def len_def count_def shape_def)
    moreover have "dates s' = sorted_list_of_set (insert k (set (dates s)))"
    proof -
      have "sorted_list_of_set (set (insort k ds)) = insort k ds"
        using s(5,6) False
        by (intro sorted_list_of_set.idem_if_sorted_distinct) (simp_all add: sorted_insort distinct_insort)
      then show ?thesis by (simp add: s'_def dates_def s ins set_insort_key)
    qed
    moreover have "row_at s' = (row_at s)(k \<mapsto> row)"
    proof -
      have l: "length (take i ds) = length (take i rows)" using s(3) by simp
      have notin: "k \<notin> set (take i ds)" using False by (auto dest: in_set_takeD)
      have "zip (take i ds) (take i rows) @ zip (drop i ds) (drop i rows) = zip ds rows"
        using l by (metis append_take_drop_id zip_append)
      then show ?thesis
        using map_of_insert_mid[OF l notin, of "drop i ds" row "drop i rows"]
        by (simp add: row_at_def s'_def dates_def values_ts_def s fun_eq_iff)
    qed
    moreover have "k \<notin> set (dates s)" using False by (simp add: len)
    ultimately show ?thesis by blast
  qed
qed

lemma insert_all_spec:
  assumes "wf_store s" "0 < w" "0 < len s \<Longrightarrow> count s = w" "\<forall>(k, v)\<in>set kvs. length v = w"
    "0 < len s \<Longrightarrow> date_owned s \<and> data_owned s"
  shows "\<exists>s'. insert_all s kvs = Inr s' \<and> wf_store s' \<and>
              dates s' = sorted_list_of_set (set (dates s) \<union> fst ` set kvs) \<and>
              row_at s' = row_at s ++ map_of (rev kvs)"
  using assms
proof (induction kvs arbitrary: s)
  case Nil
  have "sorted (dates s)" "distinct (dates s)"
    using Nil.prems(1) by (auto simp: wf_store_def dates_def split: option.splits)
  then have "sorted_list_of_set (set (dates s)) = dates s"
    by (rule sorted_list_of_set.idem_if_sorted_distinct)
  then show ?case using Nil.prems(1) by simp
next
  case (Cons kv kvs)
  obtain k v where kv: "kv = (k, v)" by (cases kv)
  have v: "v \<noteq> []" "0 < len s \<Longrightarrow> length v = count s"
    using Cons.prems(2,3,4) kv by auto
  from insert_step[OF Cons.prems(1) v Cons.prems(5), of k] obtain s1 where s1:
    "Numpy_insert s k v = Inr s1" "wf_store s1" "0 < len s1" "count s1 = length v"
    "dates s1 = sorted_list_of_set (insert k (set (dates s)))"
    "row_at s1 = (row_at s)(k \<mapsto> v)" "date_owned s1 \<and> data_owned s1" by blast
  have c1: "0 < len s1 \<Longrightarrow> count s1 = w" using s1(4) Cons.prems(4) kv by simp
  have r: "\<forall>(k, v)\<in>set kvs. length v = w" using Cons.prems(4) by simp
  from Cons.IH[OF s1(2) Cons.prems(2) c1 r s1(7)] obtain s' where s':
    "insert_all s1 kvs = Inr s'" "wf_store s'"
    "dates s' = sorted_list_of_set (set (dates s1) \<union> fst ` set kvs)"
    "row_at s' = row_at s1 ++ map_of (rev kvs)" by blast
  have "insert_all s (kv # kvs) = Inr s'" using s1(1) s'(1) by (simp add: kv)
  moreover have "dates s' = sorted_list_of_set (set (dates s) \<union> fst ` set (kv # kvs))"
  proof -
    have "set (dates s1) = insert k (set (dates s))"
      unfolding s1(5) by (rule sorted_list_of_set.set_sorted_key_list_of_set) simp
    then have "set (dates s1) \<union> fst ` set kvs = set (dates s) \<union> fst ` set (kv # kvs)"
      by (simp add: kv)
    then show ?thesis using s'(3) by (simp only:)
  qed
  moreover have "row_at s' = row_at s ++ map_of (rev (kv # kvs))"
    unfolding s'(4) s1(6)
    by (rule ext) (simp add: kv map_add_def split: option.splits)
  ultimately show ?case using s'(2) by blast
qed

text \<open>
  From a store that satisfies the invariant and whose arrays can be resized (the empty
  store included), a sequence of insert calls with rows of the store's width ends with
  the keys in strict ascending order, every key of the store or of the calls once; a key
  that was inserted holds the row last written for it, any other key the row it had.
  Inserting at a key already present leaves the length and the keys as they were and
  replaces that key's row in place.
\<close>

lemma insert_ordering:
  assumes wf: "wf_store s" and w: "0 < w" "0 < len s \<Longrightarrow> count s = w"
    and rows: "\<forall>(k, v)\<in>set kvs. length v = w"
    and own: "0 < len s \<Longrightarrow> date_owned s \<and> data_owned s"
  shows "(\<exists>s'. insert_all s kvs = Inr s' \<and>
               dates s' = sorted_list_of_set (set (dates s) \<union> fst ` set kvs) \<and>
               row_at s' = row_at s ++ map_of (rev kvs)) \<and>
         (\<forall>k v. k \<in> set (dates s) \<and> length v = w \<longrightarrow>
               (\<exists>t. Numpy_insert s k v = Inr t \<and> len t = len s \<and> dates t = dates s \<and>
                    (\<exists>i < len s. dates s ! i = k \<and> values_ts t = (values_ts s)[i := v])))"
proof (intro conjI allI impI)
  show "\<exists>s'. insert_all s kvs = Inr s' \<and>
               dates s' = sorted_list_of_set (set (dates s) \<union> fst ` set kvs) \<and>
               row_at s' = row_at s ++ map_of (rev kvs)"
    using insert_all_spec[OF wf w rows own] by blast
next
  fix k and v :: "fval list"
  assume a: "k \<in> set (dates s) \<and> length v = w"
  then have "dates s \<noteq> []" by auto
  then have pos: "0 < len s"
    using wf by (auto simp: wf_store_def dates_def len_def shape_def split: option.splits)
  have v: "v \<noteq> []" "0 < len s \<Longrightarrow> length v = count s" using a w pos by auto
  from insert_step[OF wf v own, of k] a
  show "\<exists>t. Numpy_insert s k v = Inr t \<and> len t = len s \<and> dates t = dates s \<and>
            (\<exists>i < len s. dates s ! i = k \<and> values_ts t = (values_ts s)[i := v])"
    by blast
qed

lemma insert_ordering_example:
  "insert_all ex_empty [(2, [Fin 1]), (1, [Fin 2]), (2, [Fin 3])] =
     Inr \<lparr>date = Some [1, 2], data = Some [[Fin 2], [Fin 3]], skl = [1, 2],
           date_owned = True, data_owned = True\<rparr> \<and>
   Numpy_insert ex3 2 [Fin 7] =
     Inr \<lparr>date = Some [1, 2, 3], data = Some [[Fin 10], [Fin 7], [Fin 15]], skl = [1, 2, 3],
           date_owned = True, data_owned = True\<rparr>"
  by (simp add: Numpy_insert_def write_row_def ex_empty_def ex3_def len_def count_def shape_def
      ncols_def values_ts_def rank_def skl_insert_def np_resize_def shift_up_def
      np_setitem_def np_setrow_def Let_def)

text \<open>
  A store made from 1-D data holds the view \<open>data.reshape(len(data), 1)\<close>, which does
  not own its data, where a store made from rows holds an array of its own.
\<close>

lemma make_column_view:
  "ds \<noteq> [] \<Longrightarrow> \<not> data_owned (Numpy_make (Some (Seq ds)) (Column xs) raw) \<and>
     data_owned (Numpy_make (Some (Seq ds)) (Rows rows) raw)"
  by (simp add: Numpy_make_def Let_def)

text \<open>
  C1. The claim asks, after an insert at a new key, for the keys in ascending order with
  the new key among them. On the store made from the keys 1, 2, 3 and the 1-D data
  10, 12, 15, the insert of a row at key 4 returns no store: the key array is resized,
  the value array, a view, is not, and the call ends with ValueError.
\<close>

theorem insert_into_view_raises: "Numpy_insert ex_view 4 [Fin 1] = Inl ValueError"
  by (simp add: Numpy_insert_def ex_view_def Numpy_make_def Let_def len_def count_def shape_def
      ncols_def values_ts_def Skiplist_def skl_insert_def rank_def np_resize_def)

subsection \<open>Merging\<close>

lemma mdt_cons:
  "mdt ((h, fl) # others) dt = (case map_of h dt of None \<Rightarrow> fl | Some row \<Rightarrow> row) @ mdt others dt"
  by (simp add: mdt_def)

lemma merge_fold_keys:
  "distinct L \<Longrightarrow>
   map fst (foldl (\<lambda>h dt. AList.update dt (f h dt) h) h L) =
   map fst h @ filter (\<lambda>x. x \<notin> fst ` set h) L"
proof (induction L arbitrary: h)
  case Nil
  then show ?case by simp
next
  case (Cons d L)
  let ?h1 = "AList.update d (f h d) h"
  have k1: "map fst ?h1 = (if d \<in> fst ` set h then map fst h else map fst h @ [d])"
    by (simp add: update_keys)
  have d: "d \<notin> set L" "distinct L" using Cons.prems by simp_all
  have f: "filter (\<lambda>x. x \<notin> fst ` set ?h1) L = filter (\<lambda>x. x \<notin> fst ` set h) L"
  proof (rule filter_cong[OF refl])
    fix x assume "x \<in> set L"
    then have "x \<noteq> d" using d(1) by auto
    moreover have "fst ` set ?h1 = insert d (fst ` set h)"
      using k1 by (metis (no_types, lifting) insert_absorb list.set_map set_append list.simps(15) Un_insert_right sup_bot.right_neutral empty_set)
    ultimately show "(x \<notin> fst ` set ?h1) = (x \<notin> fst ` set h)" by simp
  qed
  show ?case using Cons.IH[OF d(2), of ?h1] by (simp add: f k1)
qed

lemma merge_fold_lookup:
  "distinct L \<Longrightarrow>
   map_of (foldl (\<lambda>h dt. AList.update dt (mdt ((h, fl) # others) dt) h) h L) x =
   (if x \<in> set L then Some (mdt ((h, fl) # others) x) else map_of h x)"
proof (induction L arbitrary: h)
  case Nil
  then show ?case by simp
next
  case (Cons d L)
  let ?h1 = "AList.update d (mdt ((h, fl) # others) d) h"
  have d: "d \<notin> set L" "distinct L" using Cons.prems by simp_all
  have m1: "map_of ?h1 = (map_of h)(d \<mapsto> mdt ((h, fl) # others) d)"
    by (rule update_conv')
  show ?case
  proof (cases "x \<in> set L")
    case True
    then have "x \<noteq> d" using d(1) by auto
    then have "mdt ((?h1, fl) # others) x = mdt ((h, fl) # others) x"
      by (simp add: mdt_cons update_conv')
    then show ?thesis using Cons.IH[OF d(2), of ?h1] True by simp
  next
    case False
    then show ?thesis using Cons.IH[OF d(2), of ?h1] by (simp add: m1)
  qed
qed

lemma map_sort_key: "map f (sort_key f xs) = sort (map f xs)"
proof (induction xs)
  case Nil
  then show ?case by simp
next
  case (Cons x xs)
  have "map f (insort_key f x ys) = insort (f x) (map f ys)" for ys
    by (induction ys) simp_all
  then show ?case using Cons by simp
qed

lemma getts_view:
  "dates (getts s h) = map fst (sort_key fst h) \<and> values_ts (getts s h) = map snd (sort_key fst h)"
  by (cases "sort_key fst h") (simp_all add: getts_def clone_def Numpy_make_def Let_def dates_def values_ts_def Let_def)

lemma getts_row:
  assumes "distinct (map fst h)"
  shows "row_at (getts s h) = map_of h"
proof -
  have "distinct (map fst (sort_key fst h))" using assms by (simp add: map_sort_key)
  moreover have "set (sort_key fst h) = set h" by simp
  ultimately have "map_of (sort_key fst h) = map_of h"
    using assms by (simp add: map_of_inject_set)
  then show ?thesis by (simp add: row_at_def fun_eq_iff getts_view zip_map_fst_snd)
qed

lemma shaped_view:
  assumes "shaped s"
  shows "length (dates s) = length (values_ts s)" "len s = length (dates s)"
  using assms
  by (auto simp: shaped_def dates_def values_ts_def len_def shape_def split: option.splits)

text \<open>
  C6. For two stores (as many keys as rows, no key twice) with disjoint key sets,
  \<open>a.merge([b], fill)\<close> has \<open>len(a) + len(b)\<close> rows, its keys are the union of both
  key sets in ascending order, a row at a key of \<open>a\<close> is \<open>a\<close>'s row followed by the
  fill value in all of \<open>b\<close>'s columns, and a row at a key of \<open>b\<close> is the fill value
  in all of \<open>a\<close>'s columns followed by \<open>b\<close>'s row; this in whatever order the keys are
  visited.
\<close>

theorem merge_fill:
  assumes wa: "shaped a" "distinct (dates a)" and wb: "shaped b" "distinct (dates b)"
    and disj: "set (dates a) \<inter> set (dates b) = {}"
    and vis: "visits L (alldates a [b])"
  shows "len (Numpy_merge L a [b] fill) = len a + len b \<and>
         dates (Numpy_merge L a [b] fill) = sorted_list_of_set (set (dates a) \<union> set (dates b)) \<and>
         (\<forall>k\<in>set (dates a). \<exists>row. row_at a k = Some row \<and>
             row_at (Numpy_merge L a [b] fill) k = Some (row @ replicate (count b) fill)) \<and>
         (\<forall>k\<in>set (dates b). \<exists>row. row_at b k = Some row \<and>
             row_at (Numpy_merge L a [b] fill) k = Some (replicate (count a) fill @ row))"
proof -
  note va = shaped_view[OF wa(1)] and vb = shaped_view[OF wb(1)]
  define fa where "fa = replicate (count a) fill"
  define fb where "fb = replicate (count b) fill"
  define h' where
    "h' = foldl (\<lambda>h dt. AList.update dt (mdt ((h, fa) # [(ashash b, fb)]) dt) h) (ashash a) L"
  have dL: "distinct L" and sL: "set L = set (dates a) \<union> set (dates b)"
    using vis by (simp_all add: visits_def alldates_def)
  have m: "Numpy_merge L a [b] fill = getts a h'"
    unfolding Numpy_merge_def h'_def fa_def fb_def Let_def by simp
  define rest where "rest = filter (\<lambda>x. x \<notin> set (dates a)) L"
  have ka: "map fst (ashash a) = dates a" using va(1) by (simp add: ashash_def)
  have "fst ` set (ashash a) = set (dates a)" using ka by (metis list.set_map)
  then have keys: "map fst h' = dates a @ rest"
    unfolding h'_def rest_def using merge_fold_keys[OF dL, of _ "ashash a"] by (simp add: ka)
  have dr: "distinct rest" "set rest = set (dates b)"
    using dL sL disj by (auto simp: rest_def)
  have dk: "distinct (map fst h')" using wa(2) dr by (auto simp: keys rest_def)
  have sk: "set (map fst h') = set (dates a) \<union> set (dates b)"
    unfolding keys using dr(2) by simp
  have "length rest = length (dates b)"
    using dr wb(2) by (metis distinct_card)
  then have lk: "length (map fst h') = length (dates a) + length (dates b)"
    by (simp add: keys)
  have look: "map_of h' k = Some (mdt [(ashash a, fa), (ashash b, fb)] k)" if "k \<in> set L" for k
    unfolding h'_def using merge_fold_lookup[OF dL, of fa "[(ashash b, fb)]" "ashash a" k] that
    by simp
  have srt: "map fst (sort_key fst h') = sort (map fst h')"
    by (rule map_sort_key)
  have "sorted_list_of_set (set (sort (map fst h'))) = sort (map fst h')"
    using dk by (intro sorted_list_of_set.idem_if_sorted_distinct) simp_all
  then have d: "dates (getts a h') = sorted_list_of_set (set (dates a) \<union> set (dates b))"
    using sk by (simp add: getts_view srt)
  have "length (dates (getts a h')) = length (dates a) + length (dates b)"
    using lk by (simp add: getts_view)
  moreover have "len (getts a h') = length (dates (getts a h'))"
    by (cases "sort_key fst h'")
      (simp_all add: getts_def clone_def Numpy_make_def Let_def dates_def len_def shape_def Let_def)
  ultimately have l: "len (getts a h') = len a + len b" by (simp add: va(2) vb(2))
  have ra: "\<exists>row. row_at a k = Some row \<and>
             row_at (getts a h') k = Some (row @ replicate (count b) fill)"
    if k: "k \<in> set (dates a)" for k
  proof -
    obtain row where row: "map_of (zip (dates a) (values_ts a)) k = Some row"
      using k va(1) by (metis map_of_zip_is_Some option.exhaust not_Some_eq)
    have "k \<notin> set (dates b)" using k disj by auto
    then have nb: "map_of (ashash b) k = None"
      by (auto simp: ashash_def map_of_eq_None_iff dest: set_zip_leftD)
    have "k \<in> set L" using k by (simp add: sL)
    from look[OF this] row nb show ?thesis
      by (simp add: getts_row[OF dk] row_at_def mdt_def ashash_def fb_def)
  qed
  have rb: "\<exists>row. row_at b k = Some row \<and>
             row_at (getts a h') k = Some (replicate (count a) fill @ row)"
    if k: "k \<in> set (dates b)" for k
  proof -
    obtain row where row: "map_of (zip (dates b) (values_ts b)) k = Some row"
      using k vb(1) by (metis map_of_zip_is_Some option.exhaust not_Some_eq)
    have "k \<notin> set (dates a)" using k disj by auto
    then have na: "map_of (ashash a) k = None"
      by (auto simp: ashash_def map_of_eq_None_iff dest: set_zip_leftD)
    have "k \<in> set L" using k by (simp add: sL)
    from look[OF this] row na show ?thesis
      by (simp add: getts_row[OF dk] row_at_def mdt_def ashash_def fa_def)
  qed
  show ?thesis unfolding m using l d ra rb by blast
qed

lemma shaped_ex_b: "shaped ex_b"
  by (simp add: shaped_def ex_b_def ncols_def)

theorem merge_fill_witness:
  "Numpy_merge [3, 0, 5, 1, 2] ex3 [ex_b] NaN =
     \<lparr>date = Some [0, 1, 2, 3, 5],
      data = Some [[NaN, Fin 1, Fin 2], [Fin 10, NaN, NaN], [Fin 12, NaN, NaN],
                   [Fin 15, NaN, NaN], [NaN, Fin 3, Fin 4]],
      skl = [0, 1, 2, 3, 5], date_owned = True, data_owned = True\<rparr>"
proof -
  have d: "distinct (dates ex3)" "distinct (dates ex_b)"
    "set (dates ex3) \<inter> set (dates ex_b) = {}"
    "visits [3, 0, 5, 1, 2] (alldates ex3 [ex_b])"
    by (auto simp: dates_def ex3_def ex_b_def visits_def alldates_def)
  from merge_fill[OF shaped_ex3 d(1) shaped_ex_b d(2,3,4), of NaN]
  show ?thesis
    by (simp add: Numpy_merge_def ex3_def ex_b_def dates_def values_ts_def count_def shape_def
        ncols_def ashash_def mdt_def getts_def clone_def Numpy_make_def Let_def Skiplist_def
        skl_insert_def Let_def)
qed

end
